theory Spec2Isabelle
  imports Main "HOL-Library.Char_ord" "HOL-Library.List_Lexorder" "HOL-Library.Sublist"
    "HOL-Library.Multiset"
begin

section \<open>The prefix trie of \<^verbatim>\<open>trie.go\<close>\<close>

text \<open>
  A panic of the Go program is a value of type \<open>error\<close>; every operation that can
  reach a panic returns \<open>error + 'a\<close>, with \<open>Inl\<close> for the panic.
\<close>

datatype error = PanicNotLowercase | PanicIndexOutOfRange

definition alphabetSize :: nat where
  "alphabetSize = 26"

text \<open>
  \<^verbatim>\<open>type Node struct { children [alphabetSize]*Node; isEndOfWord bool }\<close>.
  A nil pointer is \<open>None\<close>. Nodes are only ever allocated by \<^verbatim>\<open>NewNode\<close> inside
  \<^verbatim>\<open>Insert\<close> and stored in exactly one slot, so the pointer structure is a tree and
  the in-place updates of the source are rebuilt along the path here.
\<close>

datatype Node = Node (children: "Node option list") (isEndOfWord: bool)

definition NewNode :: Node where
  "NewNode = Node (replicate alphabetSize None) False"

record Trie =
  root :: Node

definition NewTrie :: Trie where
  "NewTrie = \<lparr> root = NewNode \<rparr>"

text \<open>
  The Go array type fixes the number of slots of every node; on lists this is the
  invariant \<open>node_ok\<close>.
\<close>

fun node_ok :: "Node \<Rightarrow> bool" where
  "node_ok (Node cs e) =
     (length cs = alphabetSize \<and> (\<forall>c \<in> set cs. case c of None \<Rightarrow> True | Some n \<Rightarrow> node_ok n))"

definition charToIndex :: "char \<Rightarrow> error + nat" where
  "charToIndex c =
     (if (of_char (CHR ''a'') :: nat) \<le> of_char c \<and> (of_char c :: nat) \<le> of_char (CHR ''z'')
      then Inr (of_char c - of_char (CHR ''a''))
      else Inl PanicNotLowercase)"

definition indexToChar :: "nat \<Rightarrow> error + char" where
  "indexToChar i =
     (if i < alphabetSize then Inr (char_of (of_char (CHR ''a'') + i))
      else Inl PanicIndexOutOfRange)"

text \<open>The loop of \<^verbatim>\<open>Insert\<close>, from the node \<^verbatim>\<open>currentNode\<close> on the rest of the word.\<close>

fun Insert_from :: "Node \<Rightarrow> string \<Rightarrow> error + Node" where
  "Insert_from (Node cs e) [] = Inr (Node cs True)"
| "Insert_from (Node cs e) (c # w) =
     (case charToIndex c of
        Inl err \<Rightarrow> Inl err
      | Inr idx \<Rightarrow>
          (case Insert_from (case cs ! idx of None \<Rightarrow> NewNode | Some n \<Rightarrow> n) w of
             Inl err \<Rightarrow> Inl err
           | Inr n' \<Rightarrow> Inr (Node (cs[idx := Some n']) e)))"

definition Insert :: "Trie \<Rightarrow> string \<Rightarrow> error + Trie" where
  "Insert t word =
     (case Insert_from (root t) word of Inl err \<Rightarrow> Inl err | Inr n \<Rightarrow> Inr (t\<lparr>root := n\<rparr>))"

fun Search_from :: "Node \<Rightarrow> string \<Rightarrow> error + bool" where
  "Search_from n [] = Inr (isEndOfWord n)"
| "Search_from n (c # w) =
     (case charToIndex c of
        Inl err \<Rightarrow> Inl err
      | Inr idx \<Rightarrow>
          (case children n ! idx of None \<Rightarrow> Inr False | Some m \<Rightarrow> Search_from m w))"

definition Search :: "Trie \<Rightarrow> string \<Rightarrow> error + bool" where
  "Search t word = Search_from (root t) word"

fun StartsWith_from :: "Node \<Rightarrow> string \<Rightarrow> error + bool" where
  "StartsWith_from n [] = Inr True"
| "StartsWith_from n (c # w) =
     (case charToIndex c of
        Inl err \<Rightarrow> Inl err
      | Inr idx \<Rightarrow>
          (case children n ! idx of None \<Rightarrow> Inr False | Some m \<Rightarrow> StartsWith_from m w))"

definition StartsWith :: "Trie \<Rightarrow> string \<Rightarrow> error + bool" where
  "StartsWith t pfx = StartsWith_from (root t) pfx"

text \<open>
  \<^verbatim>\<open>Delete\<close> returns its boolean together with the node as it is afterwards.
\<close>

fun Delete_from :: "Node \<Rightarrow> string \<Rightarrow> error + bool \<times> Node" where
  "Delete_from (Node cs e) [] =
     (if \<not> e then Inr (False, Node cs e) else Inr (True, Node cs False))"
| "Delete_from (Node cs e) (c # w) =
     (case charToIndex c of
        Inl err \<Rightarrow> Inl err
      | Inr idx \<Rightarrow>
          (case cs ! idx of
             None \<Rightarrow> Inr (False, Node cs e)
           | Some m \<Rightarrow>
               (case Delete_from m w of
                  Inl err \<Rightarrow> Inl err
                | Inr (b, m') \<Rightarrow> Inr (b, Node (cs[idx := Some m']) e))))"

definition Delete :: "Trie \<Rightarrow> string \<Rightarrow> error + bool \<times> Trie" where
  "Delete t word =
     (case Delete_from (root t) word of
        Inl err \<Rightarrow> Inl err
      | Inr (b, n) \<Rightarrow> Inr (b, t\<lparr>root := n\<rparr>))"

text \<open>
  \<^verbatim>\<open>collectWordsDFS\<close> appends to \<^verbatim>\<open>*words\<close>; the list is passed in and returned.
  \<open>dfs_children cs i\<close> is the \<^verbatim>\<open>for\<close> loop at index \<open>i\<close>, with \<open>cs\<close> the slots
  \<open>i, i + 1, ...\<close> still to visit.
\<close>

fun collectWordsDFS :: "Node \<Rightarrow> string \<Rightarrow> string list \<Rightarrow> error + string list"
  and dfs_children :: "Node option list \<Rightarrow> nat \<Rightarrow> string \<Rightarrow> string list \<Rightarrow> error + string list"
where
  "collectWordsDFS (Node cs e) currentWord words =
     dfs_children cs 0 currentWord (if e then words @ [currentWord] else words)"
| "dfs_children [] i currentWord words = Inr words"
| "dfs_children (None # cs) i currentWord words = dfs_children cs (i + 1) currentWord words"
| "dfs_children (Some childNode # cs) i currentWord words =
     (case indexToChar i of
        Inl err \<Rightarrow> Inl err
      | Inr ch \<Rightarrow>
          (case collectWordsDFS childNode (currentWord @ [ch]) words of
             Inl err \<Rightarrow> Inl err
           | Inr words' \<Rightarrow> dfs_children cs (i + 1) currentWord words'))"

text \<open>
  The first loop of \<^verbatim>\<open>CollectAllWordsStartingWith\<close>: the node at the end of the
  prefix, \<open>None\<close> when the path stops.
\<close>

fun walk :: "Node \<Rightarrow> string \<Rightarrow> error + Node option" where
  "walk n [] = Inr (Some n)"
| "walk n (c # w) =
     (case charToIndex c of
        Inl err \<Rightarrow> Inl err
      | Inr idx \<Rightarrow> (case children n ! idx of None \<Rightarrow> Inr None | Some m \<Rightarrow> walk m w))"

definition CollectAllWordsStartingWith :: "Trie \<Rightarrow> string \<Rightarrow> error + string list" where
  "CollectAllWordsStartingWith t pfx =
     (case walk (root t) pfx of
        Inl err \<Rightarrow> Inl err
      | Inr None \<Rightarrow> Inr []
      | Inr (Some currentNode) \<Rightarrow> collectWordsDFS currentNode pfx [])"



subsection \<open>Lowercase input, operation sequences and their expected contents\<close>

text \<open>
  The input contract of the trie: every byte is one of \<^verbatim>\<open>'a'\<close> .. \<^verbatim>\<open>'z'\<close>, compared as
  bytes.
\<close>

definition is_lower :: "char \<Rightarrow> bool" where
  "is_lower c = (CHR ''a'' \<le> c \<and> c \<le> CHR ''z'')"

definition lowercase :: "string \<Rightarrow> bool" where
  "lowercase w = list_all is_lower w"

text \<open>
  A sequence of \<^verbatim>\<open>Insert\<close> and \<^verbatim>\<open>Delete\<close> calls, run from left to right; a panic ends
  the run. \<open>live_words S ops\<close> is the set of words inserted and not deleted afterwards
  (starting from the set \<open>S\<close>), \<open>inserted_words ops\<close> the set of words ever inserted.
\<close>

datatype trie_op = OpInsert string | OpDelete string

fun op_word :: "trie_op \<Rightarrow> string" where
  "op_word (OpInsert w) = w"
| "op_word (OpDelete w) = w"

fun apply_op :: "Trie \<Rightarrow> trie_op \<Rightarrow> error + Trie" where
  "apply_op t (OpInsert w) = Insert t w"
| "apply_op t (OpDelete w) = (case Delete t w of Inl err \<Rightarrow> Inl err | Inr (b, t') \<Rightarrow> Inr t')"

fun run_ops :: "Trie \<Rightarrow> trie_op list \<Rightarrow> error + Trie" where
  "run_ops t [] = Inr t"
| "run_ops t (x # ops) = (case apply_op t x of Inl err \<Rightarrow> Inl err | Inr t' \<Rightarrow> run_ops t' ops)"

fun live_words :: "string set \<Rightarrow> trie_op list \<Rightarrow> string set" where
  "live_words S [] = S"
| "live_words S (OpInsert w # ops) = live_words (insert w S) ops"
| "live_words S (OpDelete w # ops) = live_words (S - {w}) ops"

fun inserted_words :: "trie_op list \<Rightarrow> string set" where
  "inserted_words [] = {}"
| "inserted_words (OpInsert w # ops) = insert w (inserted_words ops)"
| "inserted_words (OpDelete w # ops) = inserted_words ops"

definition lowercase_ops :: "trie_op list \<Rightarrow> bool" where
  "lowercase_ops ops = list_all (\<lambda>x. lowercase (op_word x)) ops"

text \<open>A query on the trie that a sequence of operations builds from \<^verbatim>\<open>NewTrie()\<close>.\<close>

definition Search_after :: "trie_op list \<Rightarrow> string \<Rightarrow> error + bool" where
  "Search_after ops w = (case run_ops NewTrie ops of Inl err \<Rightarrow> Inl err | Inr t \<Rightarrow> Search t w)"

definition StartsWith_after :: "trie_op list \<Rightarrow> string \<Rightarrow> error + bool" where
  "StartsWith_after ops p =
     (case run_ops NewTrie ops of Inl err \<Rightarrow> Inl err | Inr t \<Rightarrow> StartsWith t p)"

definition walk_after :: "trie_op list \<Rightarrow> string \<Rightarrow> error + Node option" where
  "walk_after ops W =
     (case run_ops NewTrie ops of Inl err \<Rightarrow> Inl err | Inr t \<Rightarrow> walk (root t) W)"

definition Collect_after :: "trie_op list \<Rightarrow> string \<Rightarrow> error + string list" where
  "Collect_after ops p =
     (case run_ops NewTrie ops of
        Inl err \<Rightarrow> Inl err
      | Inr t \<Rightarrow> CollectAllWordsStartingWith t p)"

text \<open>
  The abstraction invariant of the proofs: on lowercase strings \<^verbatim>\<open>Search\<close> decides
  membership in \<open>S\<close>, and \<^verbatim>\<open>StartsWith\<close> decides being empty or a prefix of a word in
  \<open>I\<close>.
\<close>

definition abs_trie :: "Trie \<Rightarrow> string set \<Rightarrow> string set \<Rightarrow> bool" where
  "abs_trie t S I \<longleftrightarrow>
     node_ok (root t) \<and>
     (\<forall>v. lowercase v \<longrightarrow> Search t v = Inr (v \<in> S)) \<and>
     (\<forall>v. lowercase v \<longrightarrow> StartsWith t v = Inr (v = [] \<or> (\<exists>w \<in> I. prefix v w)))"

text \<open>
  The words below a node in the order of the depth-first traversal, without error
  handling and accumulator; \<open>97\<close> is the byte \<^verbatim>\<open>'a'\<close>. It is the specification that
  \<^verbatim>\<open>collectWordsDFS\<close> is proved to compute.
\<close>

fun words_from :: "Node \<Rightarrow> string list"
  and words_children :: "Node option list \<Rightarrow> nat \<Rightarrow> string list"
where
  "words_from (Node cs e) = (if e then [[]] else []) @ words_children cs 0"
| "words_children [] i = []"
| "words_children (None # cs) i = words_children cs (i + 1)"
| "words_children (Some m # cs) i =
     map ((#) (char_of (97 + i))) (words_from m) @ words_children cs (i + 1)"

section \<open>The indexed min-heap \<^verbatim>\<open>ItemHeap\<close>\<close>

text \<open>
  \<^verbatim>\<open>type ItemHeap struct { items []int; index map[int]int }\<close>. The values are Go
  \<^verbatim>\<open>int\<close>s; the program only compares and copies them, so they are modelled as
  integers. Positions are slice indices, modelled as natural numbers; an out-of-range
  access panics.
\<close>

record ItemHeap =
  items :: "int list"
  index :: "int \<rightharpoonup> nat"

definition NewItemHeap :: ItemHeap where
  "NewItemHeap = \<lparr> items = [], index = Map.empty \<rparr>"

definition Len :: "ItemHeap \<Rightarrow> nat" where
  "Len h = length (items h)"

definition Less :: "ItemHeap \<Rightarrow> nat \<Rightarrow> nat \<Rightarrow> error + bool" where
  "Less h i j =
     (if i < length (items h) \<and> j < length (items h) then Inr (items h ! i < items h ! j)
      else Inl PanicIndexOutOfRange)"

text \<open>
  \<^verbatim>\<open>Swap\<close>: the tuple assignment exchanges the two slots, then the index entries of
  the values now at \<open>i\<close> and at \<open>j\<close> are written, in this order.
\<close>

definition Swap :: "ItemHeap \<Rightarrow> nat \<Rightarrow> nat \<Rightarrow> error + ItemHeap" where
  "Swap h i j =
     (if i < length (items h) \<and> j < length (items h) then
        (let its = (items h)[i := items h ! j, j := items h ! i];
             idx1 = (index h)(its ! i \<mapsto> i);
             idx2 = idx1(its ! j \<mapsto> j)
         in Inr \<lparr> items = its, index = idx2 \<rparr>)
      else Inl PanicIndexOutOfRange)"

definition Push :: "ItemHeap \<Rightarrow> int \<Rightarrow> ItemHeap" where
  "Push h item = \<lparr> items = items h @ [item], index = (index h)(item \<mapsto> length (items h)) \<rparr>"

definition Pop :: "ItemHeap \<Rightarrow> error + int \<times> ItemHeap" where
  "Pop h =
     (let n = length (items h) in
      if n = 0 then Inl PanicIndexOutOfRange
      else (let item = items h ! (n - 1)
            in Inr (item, \<lparr> items = take (n - 1) (items h), index = (index h)(item := None) \<rparr>)))"

subsection \<open>The functions of Go's \<^verbatim>\<open>container/heap\<close> that the program calls\<close>

text \<open>
  \<^verbatim>\<open>up\<close>, \<^verbatim>\<open>down\<close>, \<^verbatim>\<open>heap.Push\<close>, \<^verbatim>\<open>heap.Fix\<close> and \<^verbatim>\<open>heap.Init\<close> belong to the Go
  standard library, not to the repository; they are transcribed here over the methods
  \<^verbatim>\<open>Len\<close>, \<^verbatim>\<open>Less\<close>, \<^verbatim>\<open>Swap\<close>, \<^verbatim>\<open>Push\<close> above:
  \<^verbatim>\<open>
  func Push(h Interface, x any) { h.Push(x); up(h, h.Len()-1) }
  func Fix(h Interface, i int)  { if !down(h, i, h.Len()) { up(h, i) } }
  func Init(h Interface)        { n := h.Len(); for i := n/2 - 1; i >= 0; i-- { down(h, i, n) } }
  func up(h Interface, j int) {
      for {
          i := (j - 1) / 2 // parent
          if i == j || !h.Less(j, i) { break }
          h.Swap(i, j)
          j = i
      }
  }
  func down(h Interface, i0, n int) bool {
      i := i0
      for {
          j1 := 2*i + 1
          if j1 >= n || j1 < 0 { break } // j1 < 0 after int overflow
          j := j1 // left child
          if j2 := j1 + 1; j2 < n && h.Less(j2, j1) { j = j2 }
          if !h.Less(j, i) { break }
          h.Swap(i, j)
          i = j
      }
      return i > i0
  }
  \<close>
  In \<^verbatim>\<open>up\<close> the parent of \<open>j\<close> is \<^verbatim>\<open>(j - 1) / 2\<close>; Go's division truncates towards
  zero, so the parent of \<open>0\<close> is \<open>0\<close> and the loop stops there.
\<close>

definition parent :: "nat \<Rightarrow> nat" where
  "parent j = (if j = 0 then 0 else (j - 1) div 2)"

function heap_up :: "ItemHeap \<Rightarrow> nat \<Rightarrow> error + ItemHeap" where
  "heap_up h j =
     (let i = parent j in
      if i = j then Inr h
      else (case Less h j i of
              Inl err \<Rightarrow> Inl err
            | Inr b \<Rightarrow>
                if \<not> b then Inr h
                else (case Swap h i j of
                        Inl err \<Rightarrow> Inl err
                      | Inr h' \<Rightarrow> heap_up h' i)))"
  by pat_completeness auto
termination
  by (relation "measure (\<lambda>(h, j). j)") (auto simp: parent_def split: if_splits)

text \<open>
  The loop of \<^verbatim>\<open>down\<close>; it returns the heap and the final position \<open>i\<close>. The test
  \<^verbatim>\<open>j1 < 0\<close> of the source guards against overflow of \<^verbatim>\<open>2*i + 1\<close>, which cannot
  happen on natural numbers (and in Go only for \<open>i\<close> beyond half the largest
  \<^verbatim>\<open>int\<close>, hence beyond \<open>n\<close>, where the loop stops as well).
\<close>

function down_loop :: "ItemHeap \<Rightarrow> nat \<Rightarrow> nat \<Rightarrow> error + ItemHeap \<times> nat" where
  "down_loop h i n =
     (let j1 = 2 * i + 1 in
      if j1 \<ge> n then Inr (h, i)
      else (case (if j1 + 1 < n then Less h (j1 + 1) j1 else Inr False) of
              Inl err \<Rightarrow> Inl err
            | Inr r \<Rightarrow>
                (let j = (if r then j1 + 1 else j1) in
                 case Less h j i of
                   Inl err \<Rightarrow> Inl err
                 | Inr b \<Rightarrow>
                     if \<not> b then Inr (h, i)
                     else (case Swap h i j of
                             Inl err \<Rightarrow> Inl err
                           | Inr h' \<Rightarrow> down_loop h' j n))))"
  by pat_completeness auto
termination
  by (relation "measure (\<lambda>(h, i, n). n - i)") (auto split: if_splits)

definition heap_down :: "ItemHeap \<Rightarrow> nat \<Rightarrow> nat \<Rightarrow> error + ItemHeap \<times> bool" where
  "heap_down h i0 n =
     (case down_loop h i0 n of Inl err \<Rightarrow> Inl err | Inr (h', i) \<Rightarrow> Inr (h', i > i0))"

definition heap_Push :: "ItemHeap \<Rightarrow> int \<Rightarrow> error + ItemHeap" where
  "heap_Push h x = (let h' = Push h x in heap_up h' (Len h' - 1))"

definition heap_Fix :: "ItemHeap \<Rightarrow> nat \<Rightarrow> error + ItemHeap" where
  "heap_Fix h i =
     (case heap_down h i (Len h) of
        Inl err \<Rightarrow> Inl err
      | Inr (h', moved) \<Rightarrow> if \<not> moved then heap_up h' i else Inr h')"

text \<open>\<^verbatim>\<open>heap.Init\<close>: \<^verbatim>\<open>for i := n/2 - 1; i >= 0; i-- { down(h, i, n) }\<close>.\<close>

fun init_loop :: "ItemHeap \<Rightarrow> nat \<Rightarrow> nat \<Rightarrow> error + ItemHeap" where
  "init_loop h 0 n = Inr h"
| "init_loop h (Suc i) n =
     (case heap_down h i n of Inl err \<Rightarrow> Inl err | Inr (h', moved) \<Rightarrow> init_loop h' i n)"

definition heap_Init :: "ItemHeap \<Rightarrow> error + ItemHeap" where
  "heap_Init h = (let n = Len h in init_loop h (n div 2) n)"

subsection \<open>The operations of \<^verbatim>\<open>ItemHeap\<close>\<close>

definition Init :: "ItemHeap \<Rightarrow> error + ItemHeap" where
  "Init h = heap_Init h"

definition Insert_heap :: "ItemHeap \<Rightarrow> int \<Rightarrow> error + ItemHeap" where
  "Insert_heap h x = heap_Push h x"

text \<open>\<^verbatim>\<open>GetMin\<close> reads \<^verbatim>\<open>h.items[0]\<close> and changes nothing.\<close>

definition GetMin :: "ItemHeap \<Rightarrow> error + int" where
  "GetMin h = (if items h = [] then Inl PanicIndexOutOfRange else Inr (items h ! 0))"

text \<open>
  \<^verbatim>\<open>Remove\<close>. With an empty slice \<^verbatim>\<open>last\<close> would be \<open>-1\<close> and \<^verbatim>\<open>Swap\<close> would panic;
  on natural numbers \<open>last\<close> is then \<open>0\<close>, and \<open>Swap\<close> panics all the same.
\<close>

definition Remove :: "ItemHeap \<Rightarrow> int \<Rightarrow> error + bool \<times> ItemHeap" where
  "Remove h x =
     (case index h x of
        None \<Rightarrow> Inr (False, h)
      | Some i \<Rightarrow>
          (let last = length (items h) - 1 in
           case Swap h i last of
             Inl err \<Rightarrow> Inl err
           | Inr h1 \<Rightarrow>
               (let h2 = h1\<lparr>items := take last (items h1)\<rparr>;
                    h3 = h2\<lparr>index := (index h2)(x := None)\<rparr>
                in if i < length (items h3)
                   then (case heap_Fix h3 i of
                           Inl err \<Rightarrow> Inl err
                         | Inr h4 \<Rightarrow> Inr (True, h4))
                   else Inr (True, h3))))"

subsection \<open>Sequences of heap operations and what they should contain\<close>

datatype heap_op = HInsert int | HRemove int

fun heap_apply :: "ItemHeap \<Rightarrow> heap_op \<Rightarrow> error + ItemHeap" where
  "heap_apply h (HInsert x) = Insert_heap h x"
| "heap_apply h (HRemove x) =
     (case Remove h x of Inl err \<Rightarrow> Inl err | Inr (b, h') \<Rightarrow> Inr h')"

fun heap_run :: "ItemHeap \<Rightarrow> heap_op list \<Rightarrow> error + ItemHeap" where
  "heap_run h [] = Inr h"
| "heap_run h (x # ops) =
     (case heap_apply h x of Inl err \<Rightarrow> Inl err | Inr h' \<Rightarrow> heap_run h' ops)"

text \<open>The values present after a sequence of operations, starting from the set \<open>S\<close>.\<close>

fun present :: "int set \<Rightarrow> heap_op list \<Rightarrow> int set" where
  "present S [] = S"
| "present S (HInsert x # ops) = present (insert x S) ops"
| "present S (HRemove x # ops) = present (S - {x}) ops"

text \<open>
  Distinct values: no \<^verbatim>\<open>Insert\<close> of a value that is present at that moment. A sequence
  whose inserted values are pairwise distinct is a special case.
\<close>

fun distinct_ops :: "int set \<Rightarrow> heap_op list \<Rightarrow> bool" where
  "distinct_ops S [] = True"
| "distinct_ops S (HInsert x # ops) = (x \<notin> S \<and> distinct_ops (insert x S) ops)"
| "distinct_ops S (HRemove x # ops) = distinct_ops (S - {x}) ops"

fun inserted_values :: "heap_op list \<Rightarrow> int list" where
  "inserted_values [] = []"
| "inserted_values (HInsert x # ops) = x # inserted_values ops"
| "inserted_values (HRemove x # ops) = inserted_values ops"

text \<open>The state invariants: index and slice in sync, and the heap order.\<close>

definition in_sync :: "ItemHeap \<Rightarrow> bool" where
  "in_sync h \<longleftrightarrow>
     (\<forall>v \<in> set (items h). \<exists>k. index h v = Some k \<and> k < length (items h) \<and> items h ! k = v) \<and>
     dom (index h) = set (items h)"

definition heap_ok :: "int list \<Rightarrow> bool" where
  "heap_ok xs \<longleftrightarrow> (\<forall>k. 0 < k \<and> k < length xs \<longrightarrow> xs ! parent k \<le> xs ! k)"

subsection \<open>Invariants used in the proofs about the heap\<close>

text \<open>
  \<open>wf_heap\<close> says that the index is exactly the inverse of the slice; it is equivalent to
  \<open>in_sync\<close> together with distinct values. \<open>up_inv xs j\<close> is the heap order with the
  edge above \<open>j\<close> left open, \<open>down_inv xs i\<close> the same with the edges below \<open>i\<close> left open,
  and \<open>fix_pre xs i\<close> leaves both open, as after the element at \<open>i\<close> was replaced.
\<close>

definition wf_heap :: "ItemHeap \<Rightarrow> bool" where
  "wf_heap h \<longleftrightarrow> (\<forall>v k. index h v = Some k \<longleftrightarrow> k < length (items h) \<and> items h ! k = v)"

definition up_inv :: "int list \<Rightarrow> nat \<Rightarrow> bool" where
  "up_inv xs j \<longleftrightarrow>
     (\<forall>k. 0 < k \<and> k < length xs \<and> k \<noteq> j \<longrightarrow> xs ! parent k \<le> xs ! k) \<and>
     (\<forall>k. 0 < k \<and> k < length xs \<and> parent k = j \<and> 0 < j \<longrightarrow> xs ! parent j \<le> xs ! k)"

definition down_inv :: "int list \<Rightarrow> nat \<Rightarrow> bool" where
  "down_inv xs i \<longleftrightarrow>
     (\<forall>k. 0 < k \<and> k < length xs \<and> parent k \<noteq> i \<longrightarrow> xs ! parent k \<le> xs ! k) \<and>
     (\<forall>k. 0 < k \<and> k < length xs \<and> parent k = i \<and> 0 < i \<longrightarrow> xs ! parent i \<le> xs ! k)"

definition fix_pre :: "int list \<Rightarrow> nat \<Rightarrow> bool" where
  "fix_pre xs i \<longleftrightarrow>
     (\<forall>k. 0 < k \<and> k < length xs \<and> k \<noteq> i \<and> parent k \<noteq> i \<longrightarrow> xs ! parent k \<le> xs ! k) \<and>
     (\<forall>k. 0 < k \<and> k < length xs \<and> parent k = i \<and> 0 < i \<longrightarrow> xs ! parent i \<le> xs ! k)"

definition heap_inv :: "ItemHeap \<Rightarrow> bool" where
  "heap_inv h \<longleftrightarrow> wf_heap h \<and> heap_ok (items h)"

text \<open>\<^verbatim>\<open>GetMin\<close> on the heap that a sequence of operations builds from \<^verbatim>\<open>NewItemHeap()\<close>.\<close>

definition GetMin_after :: "heap_op list \<Rightarrow> error + int" where
  "GetMin_after ops =
     (case heap_run NewItemHeap ops of Inl err \<Rightarrow> Inl err | Inr h \<Rightarrow> GetMin h)"

section \<open>Properties of the trie\<close>

subsection \<open>Bytes and slot indices\<close>

lemma charToIndex_lower:
  "is_lower c \<Longrightarrow> charToIndex c = Inr (of_char c - 97) \<and> of_char c - (97::nat) < alphabetSize"
  by (auto simp: is_lower_def charToIndex_def less_eq_char_def alphabetSize_def)

lemma charToIndex_not_lower: "\<not> is_lower c \<Longrightarrow> charToIndex c = Inl PanicNotLowercase"
  by (auto simp: is_lower_def charToIndex_def less_eq_char_def)

lemma charToIndex_Inr_lower: "charToIndex c = Inr i \<Longrightarrow> is_lower c"
  by (auto simp: is_lower_def charToIndex_def less_eq_char_def split: if_splits)

lemma charToIndex_Inr_iff:
  "charToIndex c = Inr i \<longleftrightarrow> i < alphabetSize \<and> c = char_of (97 + i)"
proof
  assume a: "charToIndex c = Inr i"
  then have "(97::nat) \<le> of_char c" "(of_char c :: nat) \<le> 122" "i = of_char c - 97"
    by (auto simp: charToIndex_def split: if_splits)
  then have "i < 26" "of_char c = 97 + i" by auto
  then have "char_of (97 + i) = char_of (of_char c :: nat)" by simp
  with \<open>i < 26\<close> show "i < alphabetSize \<and> c = char_of (97 + i)"
    by (simp add: alphabetSize_def)
next
  assume "i < alphabetSize \<and> c = char_of (97 + i)"
  then show "charToIndex c = Inr i"
    by (simp add: charToIndex_def alphabetSize_def)
qed

lemma indexToChar_iff: "indexToChar i = Inr c \<longleftrightarrow> charToIndex c = Inr i"
  by (auto simp: charToIndex_Inr_iff indexToChar_def)

lemma indexToChar_Inl: "indexToChar i = Inl e \<Longrightarrow> \<not> i < alphabetSize"
  by (auto simp: indexToChar_def split: if_splits)


subsection \<open>What \<^verbatim>\<open>Insert\<close> and \<^verbatim>\<open>Delete\<close> do to the queries\<close>

lemma node_ok_NewNode: "node_ok NewNode"
  by (simp add: NewNode_def)

lemma node_ok_child:
  "node_ok (Node cs e) \<Longrightarrow> i < alphabetSize \<Longrightarrow> cs ! i = Some m \<Longrightarrow> node_ok m"
  by (force simp: in_set_conv_nth)

lemma node_ok_update:
  "node_ok (Node cs e) \<Longrightarrow> node_ok m \<Longrightarrow> node_ok (Node (cs[i := Some m]) e')"
  by (auto dest!: set_update_subset_insert[THEN subsetD])

lemma Search_from_NewNode: "lowercase v \<Longrightarrow> Search_from NewNode v = Inr False"
  by (cases v) (auto simp: lowercase_def NewNode_def dest!: charToIndex_lower)

lemma StartsWith_from_NewNode:
  "lowercase v \<Longrightarrow> StartsWith_from NewNode v = Inr (v = [])"
  by (cases v) (auto simp: lowercase_def NewNode_def dest!: charToIndex_lower)

lemma Insert_from_ok:
  "lowercase w \<Longrightarrow> node_ok n \<Longrightarrow> \<exists>n'. Insert_from n w = Inr n' \<and> node_ok n'"
proof (induction w arbitrary: n)
  case Nil
  then show ?case by (cases n) simp
next
  case (Cons c w)
  obtain cs e where n: "n = Node cs e" by (cases n)
  from Cons.prems(1) have lc: "is_lower c" and lw: "lowercase w"
    by (simp_all add: lowercase_def)
  from charToIndex_lower[OF lc] obtain i where i: "charToIndex c = Inr i" "i < alphabetSize"
    by blast
  define ch where "ch = (case cs ! i of None \<Rightarrow> NewNode | Some m \<Rightarrow> m)"
  have "node_ok ch"
    using Cons.prems(2) i node_ok_child[of cs e i] unfolding ch_def n
    by (auto simp: node_ok_NewNode split: option.splits)
  from Cons.IH[OF lw this] obtain n' where n': "Insert_from ch w = Inr n'" "node_ok n'"
    by blast
  have "node_ok (Node (cs[i := Some n']) e)"
    using Cons.prems(2) n'(2) unfolding n by (rule node_ok_update)
  then show ?case using i n' by (simp add: n ch_def)
qed

lemma Insert_from_panic: "\<not> lowercase w \<Longrightarrow> Insert_from n w = Inl PanicNotLowercase"
proof (induction w arbitrary: n)
  case Nil
  then show ?case by (simp add: lowercase_def)
next
  case (Cons c w)
  obtain cs e where n: "n = Node cs e" by (cases n)
  show ?case
  proof (cases "is_lower c")
    case False
    then show ?thesis by (simp add: n charToIndex_not_lower)
  next
    case True
    with Cons.prems have "\<not> lowercase w" by (simp add: lowercase_def)
    then show ?thesis using Cons.IH charToIndex_lower[OF True] by (simp add: n)
  qed
qed

lemma Search_from_Insert_from:
  "Insert_from n w = Inr n' \<Longrightarrow> node_ok n \<Longrightarrow> lowercase v \<Longrightarrow>
   Search_from n' v = (if v = w then Inr True else Search_from n v)"
proof (induction w arbitrary: n n' v)
  case Nil
  then show ?case by (cases n; cases v) (auto split: sum.splits)
next
  case (Cons c w)
  obtain cs e where n: "n = Node cs e" by (cases n)
  from Cons.prems(1) obtain i ch' where i: "charToIndex c = Inr i"
    and ch': "Insert_from (case cs ! i of None \<Rightarrow> NewNode | Some m \<Rightarrow> m) w = Inr ch'"
    and n': "n' = Node (cs[i := Some ch']) e"
    by (auto simp: n split: sum.splits)
  from i have il: "i < length cs" using Cons.prems(2) by (simp add: n charToIndex_Inr_iff)
  show ?case
  proof (cases v)
    case Nil
    then show ?thesis by (simp add: n n')
  next
    case (Cons d v')
    from Cons.prems(3) Cons have ld: "is_lower d" and lv': "lowercase v'"
      by (simp_all add: lowercase_def)
    from charToIndex_lower[OF ld] obtain j where j: "charToIndex d = Inr j" "j < alphabetSize"
      by blast
    show ?thesis
    proof (cases "j = i")
      case False
      then have "d \<noteq> c" using i j by auto
      then show ?thesis using False j il by (simp add: n n' Cons)
    next
      case True
      then have dc: "d = c" using i j by (simp add: charToIndex_Inr_iff)
      have ok: "node_ok (case cs ! i of None \<Rightarrow> NewNode | Some m \<Rightarrow> m)"
        using Cons.prems(2) j True node_ok_child[of cs e i]
        by (auto simp: n node_ok_NewNode split: option.splits)
      from Cons.IH[OF ch' ok lv']
      show ?thesis using True j il dc lv'
        by (auto simp: n n' Cons Search_from_NewNode split: option.splits)
    qed
  qed
qed

lemma StartsWith_from_Insert_from:
  "Insert_from n w = Inr n' \<Longrightarrow> node_ok n \<Longrightarrow> lowercase v \<Longrightarrow>
   StartsWith_from n' v = (if prefix v w then Inr True else StartsWith_from n v)"
proof (induction w arbitrary: n n' v)
  case Nil
  then show ?case by (cases n; cases v) (auto split: sum.splits)
next
  case (Cons c w)
  obtain cs e where n: "n = Node cs e" by (cases n)
  from Cons.prems(1) obtain i ch' where i: "charToIndex c = Inr i"
    and ch': "Insert_from (case cs ! i of None \<Rightarrow> NewNode | Some m \<Rightarrow> m) w = Inr ch'"
    and n': "n' = Node (cs[i := Some ch']) e"
    by (auto simp: n split: sum.splits)
  from i have il: "i < length cs" using Cons.prems(2) by (simp add: n charToIndex_Inr_iff)
  show ?case
  proof (cases v)
    case Nil
    then show ?thesis by (simp add: n n')
  next
    case (Cons d v')
    from Cons.prems(3) Cons have ld: "is_lower d" and lv': "lowercase v'"
      by (simp_all add: lowercase_def)
    from charToIndex_lower[OF ld] obtain j where j: "charToIndex d = Inr j" "j < alphabetSize"
      by blast
    show ?thesis
    proof (cases "j = i")
      case False
      then have "d \<noteq> c" using i j by auto
      then show ?thesis using False j il by (simp add: n n' Cons)
    next
      case True
      then have dc: "d = c" using i j by (simp add: charToIndex_Inr_iff)
      have ok: "node_ok (case cs ! i of None \<Rightarrow> NewNode | Some m \<Rightarrow> m)"
        using Cons.prems(2) j True node_ok_child[of cs e i]
        by (auto simp: n node_ok_NewNode split: option.splits)
      from Cons.IH[OF ch' ok lv']
      show ?thesis using True j il dc lv'
        by (auto simp: n n' Cons StartsWith_from_NewNode split: option.splits)
    qed
  qed
qed


lemma Search_from_walk:
  "Search_from n w = (case walk n w of Inl e \<Rightarrow> Inl e | Inr None \<Rightarrow> Inr False
                      | Inr (Some m) \<Rightarrow> Inr (isEndOfWord m))"
  by (induction w arbitrary: n) (auto split: sum.splits option.splits)

lemma StartsWith_from_walk:
  "StartsWith_from n w = (case walk n w of Inl e \<Rightarrow> Inl e | Inr None \<Rightarrow> Inr False
                      | Inr (Some m) \<Rightarrow> Inr True)"
  by (induction w arbitrary: n) (auto split: sum.splits option.splits)

lemma walk_Some_lowercase: "walk n w = Inr (Some m) \<Longrightarrow> lowercase w"
  by (induction w arbitrary: n)
     (auto simp: lowercase_def dest: charToIndex_Inr_lower split: sum.splits option.splits)

lemma walk_lowercase: "lowercase w \<Longrightarrow> \<exists>r. walk n w = Inr r"
  by (induction w arbitrary: n)
     (auto simp: lowercase_def dest!: charToIndex_lower split: sum.splits option.splits)

lemma walk_append_panic:
  "walk n p = Inr (Some m) \<Longrightarrow> \<not> is_lower c \<Longrightarrow> walk n (p @ c # r) = Inl PanicNotLowercase"
  by (induction p arbitrary: n)
     (auto simp: charToIndex_not_lower split: sum.splits option.splits)

lemma walk_append_None:
  "walk n p = Inr None \<Longrightarrow> walk n (p @ r) = Inr None"
  by (induction p arbitrary: n) (auto split: sum.splits option.splits)

lemma Delete_from_walk:
  "Delete_from n w = (case walk n w of Inl e \<Rightarrow> Inl e | Inr None \<Rightarrow> Inr (False, n)
       | Inr (Some m) \<Rightarrow> if isEndOfWord m then Inr (True, snd (projr (Delete_from n w)))
                          else Inr (False, n))"
proof (induction w arbitrary: n)
  case Nil
  then show ?case by (cases n) auto
next
  case (Cons c w)
  obtain cs e where n: "n = Node cs e" by (cases n)
  show ?case
  proof (cases "charToIndex c")
    case (Inl err)
    then show ?thesis by (simp add: n)
  next
    case (Inr i)
    show ?thesis
    proof (cases "cs ! i")
      case None
      then show ?thesis using Inr by (simp add: n)
    next
      case (Some m)
      have upd: "cs[i := Some m] = cs" using list_update_id[of cs i] Some by simp
      from Cons.IH[of m] show ?thesis using Inr Some
        by (auto simp: n upd split: sum.splits option.splits if_splits)
    qed
  qed
qed

lemma StartsWith_from_flag:
  "StartsWith_from (Node cs e) v = StartsWith_from (Node cs e') v"
  by (cases v) (simp_all split: sum.splits)

lemma Search_from_flag:
  "v \<noteq> [] \<Longrightarrow> Search_from (Node cs e) v = Search_from (Node cs e') v"
  by (cases v) (simp_all split: sum.splits)

lemma Delete_from_True:
  "Delete_from n w = Inr (True, n') \<Longrightarrow> node_ok n \<Longrightarrow>
     node_ok n' \<and> Search_from n' w = Inr False \<and>
     (\<forall>v. v \<noteq> w \<longrightarrow> Search_from n' v = Search_from n v) \<and>
     (\<forall>v. StartsWith_from n' v = StartsWith_from n v)"
proof (induction w arbitrary: n n')
  case Nil
  then show ?case
    using StartsWith_from_flag Search_from_flag by (cases n) (auto split: if_splits)
next
  case (Cons c w)
  obtain cs e where n: "n = Node cs e" by (cases n)
  from Cons.prems(1) obtain i m m' where i: "charToIndex c = Inr i"
    and m: "cs ! i = Some m" and m': "Delete_from m w = Inr (True, m')"
    and n': "n' = Node (cs[i := Some m']) e"
    by (auto simp: n split: sum.splits option.splits)
  from i have il: "i < length cs" "i < alphabetSize"
    using Cons.prems(2) by (simp_all add: n charToIndex_Inr_iff)
  have okm: "node_ok m" using Cons.prems(2) il m node_ok_child[of cs e i m] by (simp add: n)
  note IH = Cons.IH[OF m' okm]
  have ok': "node_ok n'" unfolding n'
    using Cons.prems(2) IH unfolding n by (intro node_ok_update) auto
  have s1: "Search_from n' (c # w) = Inr False"
    using i il IH by (simp add: n')
  have s2: "Search_from n' v = Search_from n v" if "v \<noteq> c # w" for v
  proof (cases v)
    case Nil
    then show ?thesis by (simp add: n n')
  next
    case (Cons d v')
    show ?thesis
    proof (cases "charToIndex d")
      case (Inl err)
      then show ?thesis by (simp add: Cons)
    next
      case (Inr j)
      show ?thesis
      proof (cases "j = i")
        case True
        then have "d = c" using i Inr by (simp add: charToIndex_Inr_iff)
        with that Cons have "v' \<noteq> w" by simp
        then show ?thesis using IH True Inr il m by (simp add: Cons n n')
      next
        case False
        then show ?thesis using Inr by (simp add: Cons n n')
      qed
    qed
  qed
  have s3: "StartsWith_from n' v = StartsWith_from n v" for v
  proof (cases v)
    case Nil
    then show ?thesis by simp
  next
    case (Cons d v')
    show ?thesis
    proof (cases "charToIndex d")
      case (Inl err)
      then show ?thesis by (simp add: Cons)
    next
      case (Inr j)
      show ?thesis
      proof (cases "j = i")
        case True
        then show ?thesis using IH Inr il m by (simp add: Cons n n')
      next
        case False
        then show ?thesis using Inr by (simp add: Cons n n')
      qed
    qed
  qed
  from ok' s1 s2 s3 show ?case by blast
qed


subsection \<open>The abstraction invariant along a sequence of operations\<close>

lemma abs_trie_NewTrie: "abs_trie NewTrie {} {}"
  by (simp add: abs_trie_def NewTrie_def Search_def StartsWith_def node_ok_NewNode
      Search_from_NewNode StartsWith_from_NewNode)

lemma abs_trie_Insert:
  assumes "abs_trie t S I" "lowercase w"
  shows "\<exists>t'. Insert t w = Inr t' \<and> abs_trie t' (insert w S) (insert w I)"
proof -
  from assms have ok: "node_ok (root t)" by (simp add: abs_trie_def)
  from Insert_from_ok[OF assms(2) ok] obtain n' where
    n': "Insert_from (root t) w = Inr n'" "node_ok n'" by blast
  have "abs_trie (t\<lparr>root := n'\<rparr>) (insert w S) (insert w I)"
    using assms(1) n'(2) Search_from_Insert_from[OF n'(1) ok]
      StartsWith_from_Insert_from[OF n'(1) ok]
    by (auto simp: abs_trie_def Search_def StartsWith_def)
  then show ?thesis using n' by (simp add: Insert_def)
qed

lemma Search_from_lowercase: "lowercase w \<Longrightarrow> \<exists>b. Search_from n w = Inr b"
  using walk_lowercase[of w n] by (auto simp: Search_from_walk split: option.splits)

lemma Delete_from_cases:
  "Search_from n w = Inr False \<Longrightarrow> Delete_from n w = Inr (False, n)"
  "Search_from n w = Inr True \<Longrightarrow> \<exists>n'. Delete_from n w = Inr (True, n')"
  "Search_from n w = Inl err \<Longrightarrow> Delete_from n w = Inl err"
  by (subst Delete_from_walk,
      auto simp: Search_from_walk split: sum.splits option.splits if_splits)+

lemma abs_trie_Delete:
  assumes "abs_trie t S I" "lowercase w"
  shows "\<exists>b t'. Delete t w = Inr (b, t') \<and> abs_trie t' (S - {w}) I"
proof -
  from assms have ok: "node_ok (root t)" and s: "Search_from (root t) w = Inr (w \<in> S)"
    by (simp_all add: abs_trie_def Search_def)
  show ?thesis
  proof (cases "w \<in> S")
    case False
    with s have "Delete_from (root t) w = Inr (False, root t)"
      by (simp add: Delete_from_cases)
    moreover have "abs_trie t (S - {w}) I" using assms(1) False by simp
    ultimately show ?thesis by (auto simp: Delete_def)
  next
    case True
    with s Delete_from_cases(2) obtain n' where
      n': "Delete_from (root t) w = Inr (True, n')" by auto
    note D = Delete_from_True[OF n' ok]
    have "Search_from n' v = Inr (v \<in> S - {w})" if "lowercase v" for v
    proof (cases "v = w")
      case True
      then show ?thesis using D by simp
    next
      case False
      then have "Search_from n' v = Search_from (root t) v" using D by blast
      then show ?thesis using assms(1) that False by (simp add: abs_trie_def Search_def)
    qed
    then have "abs_trie (t\<lparr>root := n'\<rparr>) (S - {w}) I"
      using D assms(1) by (simp add: abs_trie_def Search_def StartsWith_def)
    then show ?thesis using n' by (auto simp: Delete_def)
  qed
qed

lemma abs_trie_run_ops:
  "abs_trie t S I \<Longrightarrow> lowercase_ops ops \<Longrightarrow>
   \<exists>t'. run_ops t ops = Inr t' \<and> abs_trie t' (live_words S ops) (I \<union> inserted_words ops)"
proof (induction ops arbitrary: t S I)
  case Nil
  then show ?case by simp
next
  case (Cons x ops)
  from Cons.prems(2) have lx: "lowercase (op_word x)" and lo: "lowercase_ops ops"
    by (simp_all add: lowercase_ops_def)
  show ?case
  proof (cases x)
    case (OpInsert w)
    with abs_trie_Insert[OF Cons.prems(1), of w] lx obtain t1 where
      t1: "Insert t w = Inr t1" "abs_trie t1 (insert w S) (insert w I)" by auto
    from Cons.IH[OF t1(2) lo] show ?thesis using t1(1) by (simp add: OpInsert)
  next
    case (OpDelete w)
    with abs_trie_Delete[OF Cons.prems(1), of w] lx obtain b t1 where
      t1: "Delete t w = Inr (b, t1)" "abs_trie t1 (S - {w}) I" by auto
    from Cons.IH[OF t1(2) lo] show ?thesis using t1(1) by (simp add: OpDelete)
  qed
qed

lemma reachable_abs:
  "lowercase_ops ops \<Longrightarrow>
   \<exists>t. run_ops NewTrie ops = Inr t \<and> abs_trie t (live_words {} ops) (inserted_words ops)"
  using abs_trie_run_ops[OF abs_trie_NewTrie, of ops] by simp

lemma Search_True_lowercase: "Search t w = Inr True \<Longrightarrow> lowercase w"
  by (auto simp: Search_def Search_from_walk split: sum.splits option.splits
      dest: walk_Some_lowercase)

lemma StartsWith_True_lowercase: "StartsWith t w = Inr True \<Longrightarrow> lowercase w"
  by (auto simp: StartsWith_def StartsWith_from_walk split: sum.splits option.splits
      dest: walk_Some_lowercase)

lemma live_words_lowercase:
  "lowercase_ops ops \<Longrightarrow> \<forall>w \<in> S. lowercase w \<Longrightarrow> w \<in> live_words S ops \<Longrightarrow> lowercase w"
  by (induction S ops rule: live_words.induct) (auto simp: lowercase_ops_def)

lemma inserted_words_lowercase:
  "lowercase_ops ops \<Longrightarrow> w \<in> inserted_words ops \<Longrightarrow> lowercase w"
  by (induction ops rule: inserted_words.induct) (auto simp: lowercase_ops_def)

lemma lowercase_prefix: "prefix p w \<Longrightarrow> lowercase w \<Longrightarrow> lowercase p"
  by (auto simp: prefix_def lowercase_def)

subsection \<open>The depth-first traversal\<close>

lemma ex_nth_Cons:
  "(\<exists>k. k < length (a # cs) \<and> P k ((a # cs) ! k)) \<longleftrightarrow>
   P 0 a \<or> (\<exists>k. k < length cs \<and> P (Suc k) (cs ! k))"
proof
  assume "\<exists>k. k < length (a # cs) \<and> P k ((a # cs) ! k)"
  then obtain k where k: "k < length (a # cs)" "P k ((a # cs) ! k)" by blast
  show "P 0 a \<or> (\<exists>k. k < length cs \<and> P (Suc k) (cs ! k))"
  proof (cases k)
    case 0
    with k show ?thesis by simp
  next
    case (Suc j)
    with k have "j < length cs \<and> P (Suc j) (cs ! j)" by simp
    then show ?thesis by blast
  qed
next
  assume "P 0 a \<or> (\<exists>k. k < length cs \<and> P (Suc k) (cs ! k))"
  then show "\<exists>k. k < length (a # cs) \<and> P k ((a # cs) ! k)"
  proof
    assume "P 0 a"
    then have "0 < length (a # cs) \<and> P 0 ((a # cs) ! 0)" by simp
    then show ?thesis by blast
  next
    assume "\<exists>k. k < length cs \<and> P (Suc k) (cs ! k)"
    then obtain k where "k < length cs" "P (Suc k) (cs ! k)" by blast
    then have "Suc k < length (a # cs) \<and> P (Suc k) ((a # cs) ! Suc k)" by simp
    then show ?thesis by blast
  qed
qed

lemma words_children_mem:
  "x \<in> set (words_children cs i) \<longleftrightarrow>
     (\<exists>k. k < length cs \<and> (\<exists>m s. cs ! k = Some m \<and> s \<in> set (words_from m) \<and>
           x = char_of (97 + (i + k)) # s))"
proof (induction cs arbitrary: i)
  case Nil
  then show ?case by simp
next
  case (Cons a cs)
  show ?case
    unfolding ex_nth_Cons[where P = "\<lambda>k c. \<exists>m s. c = Some m \<and> s \<in> set (words_from m) \<and>
           x = char_of (97 + (i + k)) # s"]
    by (cases a) (auto simp: Cons.IH)
qed

lemma words_from_mem:
  "node_ok n \<Longrightarrow> s \<in> set (words_from n) \<longleftrightarrow> Search_from n s = Inr True"
proof (induction s arbitrary: n)
  case Nil
  then show ?case by (cases n) (auto simp: words_children_mem)
next
  case (Cons c s)
  obtain cs e where n: "n = Node cs e" by (cases n)
  from Cons.prems have len: "length cs = alphabetSize" by (simp add: n)
  have IH: "s \<in> set (words_from m) \<longleftrightarrow> Search_from m s = Inr True"
    if "k < length cs" "cs ! k = Some m" for k m
    using Cons.IH[of m] node_ok_child[of cs e k m] that Cons.prems len by (simp add: n)
  show ?case
  proof
    assume "c # s \<in> set (words_from n)"
    then obtain k m where k: "k < length cs" "cs ! k = Some m" "s \<in> set (words_from m)"
      "c = char_of (97 + k)"
      by (auto simp: n words_children_mem)
    then have "charToIndex c = Inr k" using len by (simp add: charToIndex_Inr_iff)
    then show "Search_from n (c # s) = Inr True" using k IH[OF k(1,2)] by (simp add: n)
  next
    assume a: "Search_from n (c # s) = Inr True"
    then obtain k m where k: "charToIndex c = Inr k" "cs ! k = Some m"
      "Search_from m s = Inr True"
      by (auto simp: n split: sum.splits option.splits)
    then have "k < length cs" "c = char_of (97 + k)"
      using len by (simp_all add: charToIndex_Inr_iff)
    then show "c # s \<in> set (words_from n)"
      using k IH[of k m] by (auto simp: n words_children_mem)
  qed
qed

lemma words_children_sorted:
  "i + length cs \<le> alphabetSize \<Longrightarrow>
   (\<forall>k m. k < length cs \<longrightarrow> cs ! k = Some m \<longrightarrow> sorted_wrt (<) (words_from m)) \<Longrightarrow>
   sorted_wrt (<) (words_children cs i)"
proof (induction cs arbitrary: i)
  case Nil
  then show ?case by simp
next
  case (Cons a cs)
  have rest: "sorted_wrt (<) (words_children cs (i + 1))"
    using Cons.prems by (intro Cons.IH) (auto simp: nth_Cons split: nat.splits)
  show ?case
  proof (cases a)
    case None
    then show ?thesis using rest by simp
  next
    case (Some m)
    from Cons.prems(2)[rule_format, of 0 m] Some have sm: "sorted_wrt (<) (words_from m)"
      by simp
    have "x < y" if "x \<in> set (map ((#) (char_of (97 + i))) (words_from m))"
      "y \<in> set (words_children cs (i + 1))" for x y
    proof -
      from that(1) obtain s where x: "x = char_of (97 + i) # s" by auto
      from that(2) obtain k s' where k: "k < length cs" "y = char_of (97 + (i + 1 + k)) # s'"
        by (auto simp: words_children_mem)
      have "(char_of (97 + i) :: char) < char_of (97 + (i + 1 + k))"
        using Cons.prems(1) k(1) by (simp add: less_char_def alphabetSize_def)
      then show ?thesis by (simp add: x k)
    qed
    then show ?thesis using rest sm Some
      by (simp add: sorted_wrt_append sorted_wrt_map)
  qed
qed

lemma words_from_sorted: "node_ok n \<Longrightarrow> sorted_wrt (<) (words_from n)"
proof (induction n)
  case (Node cs e)
  have 1: "\<forall>k m. k < length cs \<longrightarrow> cs ! k = Some m \<longrightarrow> sorted_wrt (<) (words_from m)"
  proof (intro allI impI)
    fix k m assume k: "k < length cs" "cs ! k = Some m"
    then have "Some m \<in> set cs" by (metis nth_mem)
    moreover have "node_ok m" using Node.prems k node_ok_child[of cs e k m] by simp
    ultimately show "sorted_wrt (<) (words_from m)" using Node.IH[of "Some m" m] by simp
  qed
  have 2: "sorted_wrt (<) (words_children cs 0)"
    using Node.prems 1 by (intro words_children_sorted) simp_all
  have 3: "[] < y" if "y \<in> set (words_children cs 0)" for y
    using that by (auto simp: words_children_mem)
  show ?case using 2 3 by (simp add: sorted_wrt_append)
qed

lemma collect_eq_words:
  "node_ok n \<Longrightarrow>
     collectWordsDFS n cw ws = Inr (ws @ map ((@) cw) (words_from n))"
  "i + length cs \<le> alphabetSize \<Longrightarrow> (\<forall>c \<in> set cs. case c of None \<Rightarrow> True | Some m \<Rightarrow> node_ok m) \<Longrightarrow>
     dfs_children cs i cw ws =
       Inr (ws @ map ((@) cw) (words_children cs i))"
proof (induction n cw ws and cs i cw ws rule: collectWordsDFS_dfs_children.induct)
  case (1 cs e currentWord words)
  then show ?case by simp
next
  case (2 i currentWord words)
  then show ?case by simp
next
  case (3 cs i currentWord words)
  then show ?case by simp
next
  case (4 childNode cs i currentWord words)
  from "4.prems" have i: "i < alphabetSize" by simp
  then have ch: "indexToChar i = Inr (char_of (97 + i))" by (simp add: indexToChar_def)
  from "4.prems" have ok: "node_ok childNode" by simp
  note a = "4.IH"(1)[OF ch ok]
  have b: "dfs_children cs (i + 1) currentWord (words @ map ((@) (currentWord @ [char_of (97 + i)])) (words_from childNode)) =
     Inr ((words @ map ((@) (currentWord @ [char_of (97 + i)])) (words_from childNode)) @
          map ((@) currentWord) (words_children cs (i + 1)))"
    using "4.prems" by (intro "4.IH"(2)[OF ch a]) simp_all
  have e: "(@) (currentWord @ [char_of (97 + i)]) = (\<lambda>a. currentWord @ char_of (97 + i) # a)"
    by (rule ext) simp
  show ?case using b unfolding e by (simp add: ch a comp_def e)
qed

lemma walk_node_ok: "node_ok n \<Longrightarrow> walk n p = Inr (Some m) \<Longrightarrow> node_ok m"
proof (induction p arbitrary: n)
  case Nil
  then show ?case by simp
next
  case (Cons c p)
  obtain cs e where n: "n = Node cs e" by (cases n)
  from Cons.prems(2) obtain i k where i: "charToIndex c = Inr i" "cs ! i = Some k"
    "walk k p = Inr (Some m)"
    by (auto simp: n split: sum.splits option.splits)
  then have "node_ok k" using Cons.prems(1) node_ok_child[of cs e i k]
    by (simp add: n charToIndex_Inr_iff)
  then show ?case using Cons.IH i by blast
qed

lemma walk_append:
  "walk n p = Inr (Some m) \<Longrightarrow> walk n (p @ s) = walk m s"
  by (induction p arbitrary: n) (auto split: sum.splits option.splits)

lemma append_less_mono: "(xs :: 'a::linorder list) < ys \<Longrightarrow> p @ xs < p @ ys"
  by (induction p) simp_all

lemma Collect_from_spec:
  assumes ok: "node_ok (root t)"
  shows "walk (root t) p = Inr None \<Longrightarrow> CollectAllWordsStartingWith t p = Inr []"
    and "walk (root t) p = Inr (Some m) \<Longrightarrow>
         \<exists>L. CollectAllWordsStartingWith t p = Inr L \<and> sorted_wrt (<) L \<and>
             set L = {w. prefix p w \<and> Search t w = Inr True}"
proof -
  show "walk (root t) p = Inr None \<Longrightarrow> CollectAllWordsStartingWith t p = Inr []"
    by (simp add: CollectAllWordsStartingWith_def)
next
  assume w: "walk (root t) p = Inr (Some m)"
  have okm: "node_ok m" using ok w by (rule walk_node_ok)
  let ?L = "map ((@) p) (words_from m)"
  have c: "CollectAllWordsStartingWith t p = Inr ?L"
    using collect_eq_words(1)[OF okm, of p "[]"] w by (simp add: CollectAllWordsStartingWith_def)
  have s: "sorted_wrt (<) ?L"
    using words_from_sorted[OF okm]
    by (simp add: sorted_wrt_map) (erule sorted_wrt_mono_rel[rotated], simp add: append_less_mono)
  have "Search t (p @ s) = Inr True \<longleftrightarrow> s \<in> set (words_from m)" for s
    using walk_append[OF w, of s] words_from_mem[OF okm, of s]
    by (simp add: Search_def Search_from_walk)
  then have "set ?L = {w. prefix p w \<and> Search t w = Inr True}"
    by (auto simp: prefix_def)
  with c s show "\<exists>L. CollectAllWordsStartingWith t p = Inr L \<and> sorted_wrt (<) L \<and>
             set L = {w. prefix p w \<and> Search t w = Inr True}" by blast
qed

lemma reachable_node_ok:
  "lowercase_ops ops \<Longrightarrow> \<exists>t. run_ops NewTrie ops = Inr t \<and> node_ok (root t)"
  using reachable_abs[of ops] by (auto simp: abs_trie_def)

lemma StartsWith_False_Search: "StartsWith t w = Inr False \<Longrightarrow> Search t w = Inr False"
  by (auto simp: StartsWith_def Search_def StartsWith_from_walk Search_from_walk
      split: sum.splits option.splits)

subsection \<open>The expected contents, read off the sequence\<close>

text \<open>
  A word is live iff some \<^verbatim>\<open>Insert\<close> of it is followed by no \<^verbatim>\<open>Delete\<close> of it.
\<close>

lemma live_words_iff:
  "x \<in> live_words S ops \<longleftrightarrow>
     (x \<in> S \<and> OpDelete x \<notin> set ops) \<or>
     (\<exists>pre post. ops = pre @ OpInsert x # post \<and> OpDelete x \<notin> set post)"
proof (induction S ops rule: live_words.induct)
  case (1 S)
  then show ?case by simp
next
  case (2 S y ops)
  show ?case
  proof (cases "y = x")
    case True
    have "(\<exists>pre post. OpInsert x # ops = pre @ OpInsert x # post \<and> OpDelete x \<notin> set post) \<longleftrightarrow>
          OpDelete x \<notin> set ops \<or>
          (\<exists>pre post. ops = pre @ OpInsert x # post \<and> OpDelete x \<notin> set post)"
      by (auto simp: Cons_eq_append_conv)
    then show ?thesis using 2 True by auto
  next
    case False
    have "(\<exists>pre post. OpInsert y # ops = pre @ OpInsert x # post \<and> OpDelete x \<notin> set post) \<longleftrightarrow>
          (\<exists>pre post. ops = pre @ OpInsert x # post \<and> OpDelete x \<notin> set post)"
      using False by (auto simp: Cons_eq_append_conv)
    then show ?thesis using 2 False by auto
  qed
next
  case (3 S y ops)
  have "(\<exists>pre post. OpDelete y # ops = pre @ OpInsert x # post \<and> OpDelete x \<notin> set post) \<longleftrightarrow>
        (\<exists>pre post. ops = pre @ OpInsert x # post \<and> OpDelete x \<notin> set post)"
    by (auto simp: Cons_eq_append_conv)
  then show ?case using 3 by auto
qed

lemma inserted_words_iff: "w \<in> inserted_words ops \<longleftrightarrow> OpInsert w \<in> set ops"
  by (induction ops rule: inserted_words.induct) auto

section \<open>Claims about the trie\<close>

text \<open>
  C10. For every trie, a fresh one included, \<^verbatim>\<open>StartsWith("")\<close> returns true;
  \<^verbatim>\<open>Search("")\<close> returns false on a fresh trie; and on every trie \<^verbatim>\<open>Insert("")\<close>
  succeeds, sets the end-of-word flag of the root itself (leaving its children as they
  were), after which \<^verbatim>\<open>Search("")\<close> returns true.
\<close>

theorem empty_word_on_root:
  "StartsWith t [] = Inr True \<and>
   StartsWith NewTrie [] = Inr True \<and>
   Search NewTrie [] = Inr False \<and>
   Insert t [] = Inr (t\<lparr>root := Node (children (root t)) True\<rparr>) \<and>
   (\<exists>t'. Insert t [] = Inr t' \<and> isEndOfWord (root t') \<and> Search t' [] = Inr True)"
  by (cases "root t") (simp add: StartsWith_def Search_def Insert_def NewTrie_def NewNode_def)


text \<open>
  C4. After any sequence of \<^verbatim>\<open>Insert\<close> and \<^verbatim>\<open>Delete\<close> calls on all-lowercase words,
  starting from a fresh trie, \<^verbatim>\<open>Search(w)\<close> returns true exactly when \<open>w\<close> was inserted
  and not deleted afterwards (\<open>live_words\<close>), for every string \<open>w\<close>; for a lowercase
  \<open>w\<close> it returns without panic, and returns false otherwise. A word that is only a
  prefix of an inserted word is not in \<open>live_words\<close>, hence not a hit.
\<close>

theorem Search_iff_live:
  assumes "lowercase_ops ops"
  shows "(Search_after ops w = Inr True \<longleftrightarrow> w \<in> live_words {} ops) \<and>
         (lowercase w \<longrightarrow> Search_after ops w = Inr (w \<in> live_words {} ops))"
proof -
  from reachable_abs[OF assms] obtain t where
    t: "run_ops NewTrie ops = Inr t" "abs_trie t (live_words {} ops) (inserted_words ops)"
    by blast
  have a: "lowercase w \<Longrightarrow> Search t w = Inr (w \<in> live_words {} ops)"
    using t(2) by (simp add: abs_trie_def)
  have b: "Search t w = Inr True \<Longrightarrow> lowercase w" by (rule Search_True_lowercase)
  have c: "w \<in> live_words {} ops \<Longrightarrow> lowercase w"
    using live_words_lowercase[OF assms, of "{}" w] by simp
  from a b c show ?thesis unfolding Search_after_def t(1) by auto
qed

theorem Search_iff_live_witness:
  "lowercase_ops [OpInsert ''app'', OpInsert ''apple'', OpDelete ''app''] \<and>
   Search_after [OpInsert ''app'', OpInsert ''apple'', OpDelete ''app''] ''apple'' = Inr True \<and>
   Search_after [OpInsert ''app'', OpInsert ''apple'', OpDelete ''app''] ''app'' = Inr False \<and>
   Search_after [OpInsert ''app'', OpInsert ''apple'', OpDelete ''app''] ''appl'' = Inr False"
proof -
  have h: "lowercase_ops [OpInsert ''app'', OpInsert ''apple'', OpDelete ''app'']"
    by (simp add: lowercase_ops_def lowercase_def is_lower_def less_eq_char_def)
  have l: "lowercase ''app''" "lowercase ''appl''"
    by (simp_all add: lowercase_def is_lower_def less_eq_char_def)
  have m: "''apple'' \<in> live_words {} [OpInsert ''app'', OpInsert ''apple'', OpDelete ''app'']"
    "''app'' \<notin> live_words {} [OpInsert ''app'', OpInsert ''apple'', OpDelete ''app'']"
    "''appl'' \<notin> live_words {} [OpInsert ''app'', OpInsert ''apple'', OpDelete ''app'']"
    by simp_all
  from Search_iff_live[OF h, of "''apple''"] Search_iff_live[OF h, of "''app''"]
    Search_iff_live[OF h, of "''appl''"] h l m
  show ?thesis by simp
qed

text \<open>
  C5. In every state reached by lowercase inserts and deletes, and for every lowercase
  prefix \<open>p\<close>, \<^verbatim>\<open>CollectAllWordsStartingWith(p)\<close> returns a list whose elements are
  exactly the words \<open>w\<close> with \<open>p\<close> a prefix of \<open>w\<close> and \<^verbatim>\<open>Search(w)\<close> true (equivalently
  the live words with prefix \<open>p\<close>), sorted in the lexicographic order of byte strings and
  without duplicates; the list is empty when the path for \<open>p\<close> does not exist.
\<close>

theorem Collect_sorted_exact:
  assumes "lowercase_ops ops" "lowercase p"
  shows "\<exists>t L. run_ops NewTrie ops = Inr t \<and> CollectAllWordsStartingWith t p = Inr L \<and>
           set L = {w. prefix p w \<and> Search t w = Inr True} \<and>
           set L = {w \<in> live_words {} ops. prefix p w} \<and>
           sorted L \<and> distinct L \<and>
           (StartsWith t p = Inr False \<longrightarrow> L = [])"
proof -
  from reachable_abs[OF assms(1)] obtain t where
    t: "run_ops NewTrie ops = Inr t" "abs_trie t (live_words {} ops) (inserted_words ops)"
    by blast
  then have ok: "node_ok (root t)" by (simp add: abs_trie_def)
  have live: "Search t w = Inr True \<longleftrightarrow> w \<in> live_words {} ops" for w
    using t(2) Search_True_lowercase[of t w] live_words_lowercase[OF assms(1), of "{}" w]
    by (auto simp: abs_trie_def)
  from walk_lowercase[OF assms(2), of "root t"] obtain r where r: "walk (root t) p = Inr r"
    by blast
  show ?thesis
  proof (cases r)
    case None
    with r have c: "CollectAllWordsStartingWith t p = Inr []"
      using Collect_from_spec(1)[OF ok] by simp
    have "Search t (p @ s) \<noteq> Inr True" for s
      using walk_append_None[of "root t" p s] r None
      by (simp add: Search_def Search_from_walk)
    then have "{w. prefix p w \<and> Search t w = Inr True} = {}"
      by (auto simp: prefix_def)
    then show ?thesis using t(1) c live by auto
  next
    case (Some m)
    with r Collect_from_spec(2)[OF ok, of p m] obtain L where
      L: "CollectAllWordsStartingWith t p = Inr L" "sorted_wrt (<) L"
         "set L = {w. prefix p w \<and> Search t w = Inr True}"
      by auto
    have "StartsWith t p = Inr True" using r Some
      by (simp add: StartsWith_def StartsWith_from_walk)
    then show ?thesis using t(1) L live by (auto simp: strict_sorted_iff)
  qed
qed

theorem Collect_sorted_exact_witness:
  "lowercase_ops [OpInsert ''cat'', OpInsert ''car'', OpInsert ''card'', OpInsert ''apple'', OpInsert ''app'', OpInsert ''application''] \<and> lowercase ''app'' \<and>
   (\<exists>t L. run_ops NewTrie [OpInsert ''cat'', OpInsert ''car'', OpInsert ''card'', OpInsert ''apple'', OpInsert ''app'', OpInsert ''application''] = Inr t \<and> CollectAllWordsStartingWith t ''app'' = Inr L \<and>
           set L = {w. prefix ''app'' w \<and> Search t w = Inr True} \<and>
           set L = {w \<in> live_words {} [OpInsert ''cat'', OpInsert ''car'', OpInsert ''card'', OpInsert ''apple'', OpInsert ''app'', OpInsert ''application'']. prefix ''app'' w} \<and>
           sorted L \<and> distinct L \<and>
           (StartsWith t ''app'' = Inr False \<longrightarrow> L = [])) \<and>
   Collect_after [OpInsert ''cat'', OpInsert ''car'', OpInsert ''card'', OpInsert ''apple'', OpInsert ''app'', OpInsert ''application''] ''app'' = Inr [''app'', ''apple'', ''application''] \<and>
   Collect_after [OpInsert ''cat'', OpInsert ''car'', OpInsert ''card'', OpInsert ''apple'', OpInsert ''app'', OpInsert ''application''] ''z'' = Inr []"
proof -
  have h: "lowercase_ops [OpInsert ''cat'', OpInsert ''car'', OpInsert ''card'', OpInsert ''apple'', OpInsert ''app'', OpInsert ''application'']"
    by (simp add: lowercase_ops_def lowercase_def is_lower_def less_eq_char_def)
  have l: "lowercase ''app''"
    by (simp add: lowercase_def is_lower_def less_eq_char_def)
  have c1: "Collect_after [OpInsert ''cat'', OpInsert ''car'', OpInsert ''card'', OpInsert ''apple'', OpInsert ''app'', OpInsert ''application''] ''app'' = Inr [''app'', ''apple'', ''application'']"
    by code_simp
  have c2: "Collect_after [OpInsert ''cat'', OpInsert ''car'', OpInsert ''card'', OpInsert ''apple'', OpInsert ''app'', OpInsert ''application''] ''z'' = Inr []"
    by code_simp
  from Collect_sorted_exact[OF h l] h l c1 c2 show ?thesis by simp
qed

text \<open>
  C6. In every state reached by lowercase inserts and deletes, and for a lowercase word
  \<open>w\<close>: \<^verbatim>\<open>Search(w)\<close> is false or true. If the path for \<open>w\<close> does not exist
  (\<^verbatim>\<open>StartsWith(w)\<close> false) or \<^verbatim>\<open>Search(w)\<close> is false (the terminal node is not
  marked), \<^verbatim>\<open>Delete(w)\<close> returns false and the trie is unchanged. Otherwise it returns
  true; afterwards the path for \<open>w\<close> still exists and \<^verbatim>\<open>Search(w)\<close> is false (the flag
  is cleared), \<^verbatim>\<open>Search\<close> is unchanged on every other string, and \<^verbatim>\<open>StartsWith\<close> is
  unchanged on every string (no node is removed or added).
\<close>

theorem Delete_soft:
  assumes "lowercase_ops ops" "lowercase w"
  shows "\<exists>t. run_ops NewTrie ops = Inr t \<and>
     (Search t w = Inr False \<or> Search t w = Inr True) \<and>
     (StartsWith t w = Inr False \<or> Search t w = Inr False \<longrightarrow> Delete t w = Inr (False, t)) \<and>
     (Search t w = Inr True \<longrightarrow>
        (\<exists>t'. Delete t w = Inr (True, t') \<and> Search t' w = Inr False \<and>
              StartsWith t' w = Inr True \<and>
              (\<forall>v. v \<noteq> w \<longrightarrow> Search t' v = Search t v) \<and>
              (\<forall>p. StartsWith t' p = StartsWith t p)))"
proof -
  from reachable_node_ok[OF assms(1)] obtain t where
    t: "run_ops NewTrie ops = Inr t" and ok: "node_ok (root t)" by blast
  from Search_from_lowercase[OF assms(2), of "root t"]
  have a: "Search t w = Inr False \<or> Search t w = Inr True"
    by (auto simp: Search_def)
  have b: "Delete t w = Inr (False, t)" if "StartsWith t w = Inr False \<or> Search t w = Inr False"
  proof -
    from that StartsWith_False_Search have "Search_from (root t) w = Inr False"
      by (auto simp: Search_def)
    then show ?thesis by (simp add: Delete_def Delete_from_cases(1))
  qed
  have c: "\<exists>t'. Delete t w = Inr (True, t') \<and> Search t' w = Inr False \<and>
              StartsWith t' w = Inr True \<and>
              (\<forall>v. v \<noteq> w \<longrightarrow> Search t' v = Search t v) \<and>
              (\<forall>p. StartsWith t' p = StartsWith t p)" if s: "Search t w = Inr True"
  proof -
    from s Delete_from_cases(2)[of "root t" w] obtain n' where
      n': "Delete_from (root t) w = Inr (True, n')" by (auto simp: Search_def)
    note D = Delete_from_True[OF n' ok]
    have "StartsWith t w = Inr True" using s
      by (auto simp: Search_def StartsWith_def Search_from_walk StartsWith_from_walk
          split: sum.splits option.splits)
    then have "Delete t w = Inr (True, t\<lparr>root := n'\<rparr>) \<and> Search (t\<lparr>root := n'\<rparr>) w = Inr False \<and>
              StartsWith (t\<lparr>root := n'\<rparr>) w = Inr True \<and>
              (\<forall>v. v \<noteq> w \<longrightarrow> Search (t\<lparr>root := n'\<rparr>) v = Search t v) \<and>
              (\<forall>p. StartsWith (t\<lparr>root := n'\<rparr>) p = StartsWith t p)"
      using D n' by (simp add: Delete_def Search_def StartsWith_def)
    then show ?thesis by blast
  qed
  from t a b c show ?thesis by blast
qed

theorem Delete_soft_witness:
  "lowercase_ops [OpInsert ''app'', OpInsert ''apple''] \<and> lowercase ''app'' \<and>
   (\<exists>t. run_ops NewTrie [OpInsert ''app'', OpInsert ''apple''] = Inr t \<and>
     (Search t ''app'' = Inr False \<or> Search t ''app'' = Inr True) \<and>
     (StartsWith t ''app'' = Inr False \<or> Search t ''app'' = Inr False \<longrightarrow>
        Delete t ''app'' = Inr (False, t)) \<and>
     (Search t ''app'' = Inr True \<longrightarrow>
        (\<exists>t'. Delete t ''app'' = Inr (True, t') \<and> Search t' ''app'' = Inr False \<and>
              StartsWith t' ''app'' = Inr True \<and>
              (\<forall>v. v \<noteq> ''app'' \<longrightarrow> Search t' v = Search t v) \<and>
              (\<forall>p. StartsWith t' p = StartsWith t p)))) \<and>
   Search_after [OpInsert ''app'', OpInsert ''apple''] ''app'' = Inr True \<and>
   Search_after [OpInsert ''app'', OpInsert ''apple'', OpDelete ''app''] ''app'' = Inr False \<and>
   Search_after [OpInsert ''app'', OpInsert ''apple'', OpDelete ''app''] ''apple'' = Inr True"
proof -
  have h: "lowercase_ops [OpInsert ''app'', OpInsert ''apple'']"
    by (simp add: lowercase_ops_def lowercase_def is_lower_def less_eq_char_def)
  have l: "lowercase ''app''"
    by (simp add: lowercase_def is_lower_def less_eq_char_def)
  have e: "Search_after [OpInsert ''app'', OpInsert ''apple''] ''app'' = Inr True"
    "Search_after [OpInsert ''app'', OpInsert ''apple'', OpDelete ''app''] ''app'' = Inr False"
    "Search_after [OpInsert ''app'', OpInsert ''apple'', OpDelete ''app''] ''apple'' = Inr True"
    by code_simp+
  from Delete_soft[OF h l] h l e show ?thesis by simp
qed

text \<open>
  C7, as the claim states it, fails on a fresh trie: nothing was inserted, yet
  \<^verbatim>\<open>StartsWith("")\<close> returns true, because the root node always exists.
\<close>

theorem StartsWith_empty_prefix_counterexample:
  "StartsWith_after [] [] = Inr True \<and> inserted_words [] = {}"
  by (simp add: StartsWith_after_def StartsWith_def)

text \<open>
  C7, amended. After any sequence of lowercase inserts and deletes on a fresh trie,
  \<^verbatim>\<open>StartsWith(p)\<close> returns true exactly when \<open>p\<close> is empty or some word that was
  inserted (deleted since or not) has \<open>p\<close> as a prefix, for every string \<open>p\<close>.
\<close>

theorem StartsWith_iff_inserted:
  assumes "lowercase_ops ops"
  shows "StartsWith_after ops p = Inr True \<longleftrightarrow>
           p = [] \<or> (\<exists>w \<in> inserted_words ops. prefix p w)"
proof -
  from reachable_abs[OF assms] obtain t where
    t: "run_ops NewTrie ops = Inr t" "abs_trie t (live_words {} ops) (inserted_words ops)"
    by blast
  have a: "lowercase p \<Longrightarrow> StartsWith t p = Inr (p = [] \<or> (\<exists>w \<in> inserted_words ops. prefix p w))"
    using t(2) by (simp add: abs_trie_def)
  have b: "StartsWith t p = Inr True \<Longrightarrow> lowercase p" by (rule StartsWith_True_lowercase)
  have c: "p = [] \<or> (\<exists>w \<in> inserted_words ops. prefix p w) \<Longrightarrow> lowercase p"
    using inserted_words_lowercase[OF assms] lowercase_prefix[of p]
    by (auto simp: lowercase_def)
  define Q where "Q \<longleftrightarrow> p = [] \<or> (\<exists>w \<in> inserted_words ops. prefix p w)"
  from a b c have "StartsWith t p = Inr True \<longleftrightarrow> Q"
    unfolding Q_def[symmetric] by (cases Q) auto
  then show ?thesis unfolding StartsWith_after_def t(1) Q_def by simp
qed

theorem StartsWith_iff_inserted_witness:
  "lowercase_ops [OpInsert ''app'', OpDelete ''app''] \<and>
   StartsWith_after [OpInsert ''app'', OpDelete ''app''] ''ap'' = Inr True \<and>
   StartsWith_after [OpInsert ''app'', OpDelete ''app''] ''b'' \<noteq> Inr True"
proof -
  have h: "lowercase_ops [OpInsert ''app'', OpDelete ''app'']"
    by (simp add: lowercase_ops_def lowercase_def is_lower_def less_eq_char_def)
  from StartsWith_iff_inserted[OF h, of "''ap''"] StartsWith_iff_inserted[OF h, of "''b''"] h
  show ?thesis by simp
qed

text \<open>
  C8, as the claim states it, fails: after \<^verbatim>\<open>Insert("a")\<close> the word \<open>a\<close>, a prefix of
  \<open>ab\<close>, was inserted, but no path spells \<open>ab\<close>.
\<close>

theorem path_of_extension_counterexample:
  "walk_after [OpInsert ''a''] ''ab'' = Inr None \<and>
   ''a'' \<in> inserted_words [OpInsert ''a''] \<and> prefix ''a'' ''ab''"
proof -
  have "walk_after [OpInsert ''a''] ''ab'' = Inr None" by code_simp
  then show ?thesis by simp
qed

text \<open>
  C8, amended. After any sequence of lowercase inserts and deletes on a fresh trie, and
  for every string \<open>W\<close>: a path from the root spelling \<open>W\<close> exists iff \<open>W\<close> is empty or
  \<open>W\<close> is a prefix of some inserted word (\<open>W\<close> itself included); and the end-of-word
  flag of the node reached by spelling \<open>W\<close> is set iff \<open>W\<close> was inserted and not deleted
  afterwards.
\<close>

theorem path_and_flag_invariant:
  assumes "lowercase_ops ops"
  shows "((\<exists>m. walk_after ops W = Inr (Some m)) \<longleftrightarrow>
            W = [] \<or> (\<exists>w \<in> inserted_words ops. prefix W w)) \<and>
         (\<forall>m. walk_after ops W = Inr (Some m) \<longrightarrow>
            (isEndOfWord m \<longleftrightarrow> W \<in> live_words {} ops))"
proof -
  from reachable_abs[OF assms] obtain t where
    t: "run_ops NewTrie ops = Inr t" "abs_trie t (live_words {} ops) (inserted_words ops)"
    by blast
  have p1: "(\<exists>m. walk (root t) W = Inr (Some m)) \<longleftrightarrow> StartsWith t W = Inr True"
    by (auto simp: StartsWith_def StartsWith_from_walk split: sum.splits option.splits)
  have a: "lowercase W \<Longrightarrow> StartsWith t W = Inr (W = [] \<or> (\<exists>w \<in> inserted_words ops. prefix W w))"
    using t(2) by (simp add: abs_trie_def)
  have b: "StartsWith t W = Inr True \<Longrightarrow> lowercase W" by (rule StartsWith_True_lowercase)
  have c: "W = [] \<or> (\<exists>w \<in> inserted_words ops. prefix W w) \<Longrightarrow> lowercase W"
    using inserted_words_lowercase[OF assms] lowercase_prefix[of W]
    by (auto simp: lowercase_def)
  define Q where "Q \<longleftrightarrow> W = [] \<or> (\<exists>w \<in> inserted_words ops. prefix W w)"
  from a b c have "StartsWith t W = Inr True \<longleftrightarrow> Q"
    unfolding Q_def[symmetric] by (cases Q) auto
  then have p2: "StartsWith t W = Inr True \<longleftrightarrow>
      W = [] \<or> (\<exists>w \<in> inserted_words ops. prefix W w)" unfolding Q_def .
  have p3: "isEndOfWord m \<longleftrightarrow> W \<in> live_words {} ops" if w: "walk (root t) W = Inr (Some m)" for m
  proof -
    from w have "lowercase W" by (rule walk_Some_lowercase)
    then have "Search t W = Inr (W \<in> live_words {} ops)" using t(2) by (simp add: abs_trie_def)
    then show ?thesis using w by (simp add: Search_def Search_from_walk)
  qed
  have "walk_after ops W = walk (root t) W" by (simp add: walk_after_def t(1))
  with p1 p2 p3 show ?thesis by simp
qed

theorem path_and_flag_invariant_witness:
  "lowercase_ops [OpInsert ''app'', OpInsert ''apple'', OpDelete ''app''] \<and>
   (\<exists>m. walk_after [OpInsert ''app'', OpInsert ''apple'', OpDelete ''app''] ''appl'' = Inr (Some m)) \<and>
   (\<forall>m. walk_after [OpInsert ''app'', OpInsert ''apple'', OpDelete ''app''] ''xy'' \<noteq> Inr (Some m))"
proof -
  have h: "lowercase_ops [OpInsert ''app'', OpInsert ''apple'', OpDelete ''app'']"
    by (simp add: lowercase_ops_def lowercase_def is_lower_def less_eq_char_def)
  from path_and_flag_invariant[OF h, of "''appl''"] path_and_flag_invariant[OF h, of "''xy''"] h
  show ?thesis by simp
qed

text \<open>
  C9. On a trie whose nodes all have \<^verbatim>\<open>alphabetSize\<close> slots (every trie the program
  builds): when every byte of the input is a lowercase letter, each of the five
  operations returns normally; \<^verbatim>\<open>Insert\<close> panics whenever some byte is not a lowercase
  letter; the other four panic when such a byte follows a prefix whose path exists (the
  byte is reached), and return false, or the empty list, without panic when the path has
  stopped before it.
\<close>

theorem panic_exactly_on_bad_byte:
  assumes "node_ok (root t)"
  shows "(lowercase w \<longrightarrow>
            (\<exists>t'. Insert t w = Inr t') \<and> (\<exists>b. Search t w = Inr b) \<and>
            (\<exists>b. StartsWith t w = Inr b) \<and> (\<exists>b t'. Delete t w = Inr (b, t')) \<and>
            (\<exists>L. CollectAllWordsStartingWith t w = Inr L)) \<and>
         (\<not> lowercase w \<longrightarrow> Insert t w = Inl PanicNotLowercase) \<and>
         (StartsWith t p = Inr True \<and> \<not> is_lower c \<longrightarrow>
            Search t (p @ c # r) = Inl PanicNotLowercase \<and>
            StartsWith t (p @ c # r) = Inl PanicNotLowercase \<and>
            Delete t (p @ c # r) = Inl PanicNotLowercase \<and>
            CollectAllWordsStartingWith t (p @ c # r) = Inl PanicNotLowercase) \<and>
         (StartsWith t p = Inr False \<longrightarrow>
            Search t (p @ r) = Inr False \<and>
            StartsWith t (p @ r) = Inr False \<and>
            Delete t (p @ r) = Inr (False, t) \<and>
            CollectAllWordsStartingWith t (p @ r) = Inr [])"
proof -
  have A: "(\<exists>t'. Insert t w = Inr t') \<and> (\<exists>b. Search t w = Inr b) \<and>
            (\<exists>b. StartsWith t w = Inr b) \<and> (\<exists>b t'. Delete t w = Inr (b, t')) \<and>
            (\<exists>L. CollectAllWordsStartingWith t w = Inr L)" if lw: "lowercase w"
  proof -
    from Insert_from_ok[OF lw assms] have 1: "\<exists>t'. Insert t w = Inr t'"
      by (auto simp: Insert_def)
    from walk_lowercase[OF lw, of "root t"] obtain x where x: "walk (root t) w = Inr x" by blast
    then have 2: "\<exists>b. Search t w = Inr b" and 3: "\<exists>b. StartsWith t w = Inr b"
      by (auto simp: Search_def StartsWith_def Search_from_walk StartsWith_from_walk
          split: option.splits)
    from 2 obtain b where "Search_from (root t) w = Inr b" by (auto simp: Search_def)
    then have 4: "\<exists>b t'. Delete t w = Inr (b, t')"
      using Delete_from_cases(1,2)[of "root t" w] by (cases b) (auto simp: Delete_def)
    have 5: "\<exists>L. CollectAllWordsStartingWith t w = Inr L"
      using x Collect_from_spec[OF assms, of w] by (cases x) auto
    from 1 2 3 4 5 show ?thesis by blast
  qed
  have B: "Insert t w = Inl PanicNotLowercase" if "\<not> lowercase w"
    using Insert_from_panic[OF that, of "root t"] by (simp add: Insert_def)
  have C: "Search t (p @ c # r) = Inl PanicNotLowercase \<and>
            StartsWith t (p @ c # r) = Inl PanicNotLowercase \<and>
            Delete t (p @ c # r) = Inl PanicNotLowercase \<and>
            CollectAllWordsStartingWith t (p @ c # r) = Inl PanicNotLowercase"
    if "StartsWith t p = Inr True" "\<not> is_lower c"
  proof -
    from that(1) obtain m where "walk (root t) p = Inr (Some m)"
      by (auto simp: StartsWith_def StartsWith_from_walk split: sum.splits option.splits)
    from walk_append_panic[OF this that(2), of r]
    have w: "walk (root t) (p @ c # r) = Inl PanicNotLowercase" .
    then have "Search_from (root t) (p @ c # r) = Inl PanicNotLowercase"
      by (simp add: Search_from_walk)
    then show ?thesis using w Delete_from_cases(3)
      by (simp add: Search_def StartsWith_def Delete_def CollectAllWordsStartingWith_def
          StartsWith_from_walk)
  qed
  have D: "Search t (p @ r) = Inr False \<and>
            StartsWith t (p @ r) = Inr False \<and>
            Delete t (p @ r) = Inr (False, t) \<and>
            CollectAllWordsStartingWith t (p @ r) = Inr []"
    if "StartsWith t p = Inr False"
  proof -
    from that have "walk (root t) p = Inr None"
      by (auto simp: StartsWith_def StartsWith_from_walk split: sum.splits option.splits)
    from walk_append_None[OF this, of r]
    have w: "walk (root t) (p @ r) = Inr None" .
    then have "Search_from (root t) (p @ r) = Inr False"
      by (simp add: Search_from_walk)
    then show ?thesis using w Delete_from_cases(1)
      by (simp add: Search_def StartsWith_def Delete_def CollectAllWordsStartingWith_def
          StartsWith_from_walk)
  qed
  from A B C D show ?thesis by blast
qed

theorem panic_exactly_on_bad_byte_witness:
  "node_ok (root NewTrie) \<and>
   (\<exists>t'. Insert NewTrie ''ab'' = Inr t') \<and>
   Search NewTrie ''ab'' = Inr False \<and>
   Insert NewTrie ''aB'' = Inl PanicNotLowercase \<and>
   Search NewTrie ''Ab'' = Inl PanicNotLowercase \<and>
   Delete NewTrie ''Ab'' = Inl PanicNotLowercase \<and>
   Search NewTrie ''aB'' = Inr False"
proof -
  have h: "node_ok (root NewTrie)" by (simp add: NewTrie_def NewNode_def)
  have l: "lowercase ''ab''" "\<not> lowercase ''aB''" "\<not> is_lower CHR ''A''"
    by (simp_all add: lowercase_def is_lower_def less_eq_char_def)
  have s: "StartsWith NewTrie [] = Inr True" "StartsWith NewTrie ''a'' = Inr False"
    "Search NewTrie ''ab'' = Inr False"
    by code_simp+
  from panic_exactly_on_bad_byte[OF h, of "''ab''" "[]" "CHR ''A''" "''b''"]
    panic_exactly_on_bad_byte[OF h, of "''aB''" "''a''" "CHR ''A''" "''B''"] h l s
  show ?thesis by auto
qed

section \<open>Properties of the heap\<close>

lemma parent_less: "0 < k \<Longrightarrow> parent k < k"
  by (simp add: parent_def)

lemma parent_eq_iff: "0 < k \<Longrightarrow> parent k = i \<longleftrightarrow> k = 2 * i + 1 \<or> k = 2 * i + 2"
  by (simp add: parent_def) arith

lemma wf_heap_iff: "wf_heap h \<longleftrightarrow> in_sync h \<and> distinct (items h)"
proof
  assume w: "wf_heap h"
  have d: "distinct (items h)"
    unfolding distinct_conv_nth
  proof (intro allI impI)
    fix i j assume "i < length (items h)" "j < length (items h)" "i \<noteq> j"
    then show "items h ! i \<noteq> items h ! j"
      using w unfolding wf_heap_def by (metis option.inject)
  qed
  have "in_sync h"
    unfolding in_sync_def
  proof
    show "\<forall>v\<in>set (items h). \<exists>k. index h v = Some k \<and> k < length (items h) \<and> items h ! k = v"
      using w unfolding wf_heap_def by (metis in_set_conv_nth)
    show "dom (index h) = set (items h)"
      using w unfolding wf_heap_def by (auto simp: in_set_conv_nth dom_def) 
  qed
  with d show "in_sync h \<and> distinct (items h)" by simp
next
  assume a: "in_sync h \<and> distinct (items h)"
  show "wf_heap h"
    unfolding wf_heap_def
  proof (intro allI iffI)
    fix v k assume i: "index h v = Some k"
    then have "v \<in> set (items h)" using a by (auto simp: in_sync_def)
    then show "k < length (items h) \<and> items h ! k = v"
      using a i by (auto simp: in_sync_def)
  next
    fix v k assume k: "k < length (items h) \<and> items h ! k = v"
    then have "v \<in> set (items h)" by auto
    then obtain k' where k': "index h v = Some k'" "k' < length (items h)" "items h ! k' = v"
      using a by (auto simp: in_sync_def)
    then have "k' = k" using a k nth_eq_iff_index_eq[of "items h" k' k] by simp
    with k' show "index h v = Some k" by simp
  qed
qed

subsection \<open>Sift-up and sift-down on the slice\<close>

lemma up_inv_stop:
  "up_inv xs j \<Longrightarrow> parent j = j \<or> xs ! parent j \<le> xs ! j \<Longrightarrow> heap_ok xs"
  unfolding up_inv_def heap_ok_def
  by (metis parent_less less_irrefl)

lemma up_inv_swap:
  assumes "up_inv xs j" "j < length xs" "parent j \<noteq> j" "xs ! j < xs ! parent j"
  shows "up_inv (xs[parent j := xs ! j, j := xs ! parent j]) (parent j)"
proof -
  let ?i = "parent j"
  let ?ys = "xs[?i := xs ! j, j := xs ! ?i]"
  from assms(3) have j0: "0 < j" by (cases "j = 0") (auto simp: parent_def)
  then have ij: "?i < j" by (rule parent_less)
  have il: "?i < length xs" using ij assms(2) by simp
  have yi: "?ys ! ?i = xs ! j" using ij il assms(2) by simp
  have yj: "?ys ! j = xs ! ?i" using assms(2) by simp
  have yk: "?ys ! k = xs ! k" if "k \<noteq> ?i" "k \<noteq> j" for k using that by simp
  have e: "xs ! parent k \<le> xs ! k" if "0 < k" "k < length xs" "k \<noteq> j" for k
    using assms(1) that by (simp add: up_inv_def)
  have g: "xs ! ?i \<le> xs ! k" if "0 < k" "k < length xs" "parent k = j" for k
    using assms(1) that j0 by (simp add: up_inv_def)
  have A: "?ys ! parent k \<le> ?ys ! k" if k: "0 < k" "k < length ?ys" "k \<noteq> ?i" for k
  proof (cases "k = j")
    case True
    then show ?thesis using yi yj assms(4) by simp
  next
    case False
    then have kk: "?ys ! k = xs ! k" using k yk by simp
    consider "parent k = j" | "parent k = ?i" | "parent k \<noteq> j" "parent k \<noteq> ?i" by blast
    then show ?thesis
    proof cases
      case 1
      then show ?thesis using g[of k] k kk yj by simp
    next
      case 2
      then show ?thesis using e[of k] k False kk yi assms(4) by simp
    next
      case 3
      then show ?thesis using e[of k] k False kk yk[of "parent k"] by simp
    qed
  qed
  have B: "?ys ! parent ?i \<le> ?ys ! k" if k: "0 < k" "k < length ?ys" "parent k = ?i" "0 < ?i" for k
  proof -
    have pi: "parent ?i < ?i" using k(4) by (rule parent_less)
    then have ypi: "?ys ! parent ?i = xs ! parent ?i" using ij yk[of "parent ?i"] by simp
    have ei: "xs ! parent ?i \<le> xs ! ?i" using e[of ?i] k(4) il ij by simp
    show ?thesis
    proof (cases "k = j")
      case True
      then show ?thesis using ypi yj ei by simp
    next
      case False
      have "k \<noteq> ?i" using k(1,3) parent_less[of k] by auto
      then have "?ys ! k = xs ! k" using False yk by simp
      moreover have "xs ! ?i \<le> xs ! k" using e[of k] k False by simp
      ultimately show ?thesis using ypi ei by simp
    qed
  qed
  show ?thesis unfolding up_inv_def using A B by blast
qed

lemma down_inv_stop:
  "down_inv xs i \<Longrightarrow> (\<forall>k. 0 < k \<and> k < length xs \<and> parent k = i \<longrightarrow> xs ! i \<le> xs ! k) \<Longrightarrow>
   heap_ok xs"
  unfolding down_inv_def heap_ok_def by metis

lemma down_inv_swap:
  assumes "down_inv xs i" "j < length xs" "0 < j" "parent j = i" "xs ! j < xs ! i"
    and m: "\<forall>k. 0 < k \<and> k < length xs \<and> parent k = i \<longrightarrow> xs ! j \<le> xs ! k"
  shows "down_inv (xs[i := xs ! j, j := xs ! i]) j"
proof -
  let ?ys = "xs[i := xs ! j, j := xs ! i]"
  have ij: "i < j" using parent_less[OF assms(3)] assms(4) by simp
  have il: "i < length xs" using ij assms(2) by simp
  have yi: "?ys ! i = xs ! j" using ij il by simp
  have yj: "?ys ! j = xs ! i" using assms(2) by simp
  have yk: "?ys ! k = xs ! k" if "k \<noteq> i" "k \<noteq> j" for k using that by simp
  have e: "xs ! parent k \<le> xs ! k" if "0 < k" "k < length xs" "parent k \<noteq> i" for k
    using assms(1) that by (simp add: down_inv_def)
  have g: "xs ! parent i \<le> xs ! k" if "0 < k" "k < length xs" "parent k = i" "0 < i" for k
    using assms(1) that by (simp add: down_inv_def)
  have A: "?ys ! parent k \<le> ?ys ! k" if k: "0 < k" "k < length ?ys" "parent k \<noteq> j" for k
  proof (cases "parent k = i")
    case True
    then have ki: "k \<noteq> i" using parent_less[OF k(1)] by auto
    show ?thesis
    proof (cases "k = j")
      case True
      then show ?thesis using yi yj assms(4,5) by simp
    next
      case False
      then have "?ys ! k = xs ! k" using ki yk by simp
      then show ?thesis using True yi m k by simp
    qed
  next
    case False
    then have kj: "k \<noteq> j" using assms(4) by auto
    have pk: "?ys ! parent k = xs ! parent k" using False k(3) yk by simp
    show ?thesis
    proof (cases "k = i")
      case True
      then have "xs ! parent i \<le> xs ! j" using g[of j] assms(2,3,4) k(1) by simp
      then show ?thesis using True pk yi by simp
    next
      case ki: False
      then have "?ys ! k = xs ! k" using kj yk by simp
      then show ?thesis using e[of k] k False pk by simp
    qed
  qed
  have B: "?ys ! parent j \<le> ?ys ! k" if k: "0 < k" "k < length ?ys" "parent k = j" for k
  proof -
    have "j < k" using parent_less[OF k(1)] k(3) by simp
    then have "?ys ! k = xs ! k" using ij yk by simp
    moreover have "xs ! j \<le> xs ! k" using e[of k] k ij by simp
    ultimately show ?thesis using yi assms(4) by simp
  qed
  show ?thesis unfolding down_inv_def using A B by blast
qed

subsection \<open>The operations keep index and heap order\<close>

lemma Swap_wf:
  assumes "wf_heap h" "i < length (items h)" "j < length (items h)"
  shows "\<exists>h'. Swap h i j = Inr h' \<and> items h' = (items h)[i := items h ! j, j := items h ! i] \<and>
           wf_heap h'"
proof -
  let ?xs = "items h"
  let ?ys = "?xs[i := ?xs ! j, j := ?xs ! i]"
  let ?h' = "\<lparr> items = ?ys, index = (index h)(?ys ! i \<mapsto> i, ?ys ! j \<mapsto> j) \<rparr>"
  have d: "distinct ?xs" using assms(1) by (simp add: wf_heap_iff)
  have ne: "?xs ! a = ?xs ! b \<longleftrightarrow> a = b" if "a < length ?xs" "b < length ?xs" for a b
    using d that by (simp add: nth_eq_iff_index_eq)
  have s: "Swap h i j = Inr ?h'" using assms(2,3) by (simp add: Swap_def Let_def)
  have w: "index h v = Some k \<longleftrightarrow> k < length ?xs \<and> ?xs ! k = v" for v k
    using assms(1) by (simp add: wf_heap_def)
  have "wf_heap ?h'"
    unfolding wf_heap_def
  proof (intro allI)
    fix v k
    show "index ?h' v = Some k \<longleftrightarrow> k < length (items ?h') \<and> items ?h' ! k = v"
    proof (cases "i = j")
      case True
      then show ?thesis using assms(2) w ne by auto
    next
      case False
      have yi: "?ys ! i = ?xs ! j" using False assms(2) by simp
      have yj: "?ys ! j = ?xs ! i" using assms(3) by simp
      show ?thesis
      proof (cases "k = i \<or> k = j")
        case True
        then show ?thesis using False assms(2,3) w ne yi yj by auto
      next
        case kk: False
        then have "?ys ! k = ?xs ! k" by simp
        then show ?thesis using kk False assms(2,3) w ne yi yj by auto
      qed
    qed
  qed
  with s show ?thesis by auto
qed

declare heap_up.simps [simp del] down_loop.simps [simp del]

lemma heap_up_correct:
  "wf_heap h \<Longrightarrow> j < length (items h) \<Longrightarrow>
   \<exists>h'. heap_up h j = Inr h' \<and> wf_heap h' \<and> mset (items h') = mset (items h) \<and>
        (up_inv (items h) j \<longrightarrow> heap_ok (items h'))"
proof (induction h j rule: heap_up.induct)
  case (1 h j)
  let ?i = "parent j"
  show ?case
  proof (cases "?i = j \<or> \<not> items h ! j < items h ! ?i")
    case True
    have il: "?i < length (items h)" using "1.prems"(2) parent_less[of j] by (cases "j = 0") (auto simp: parent_def)
    have "heap_up h j = Inr h"
      using True "1.prems"(2) il by (subst heap_up.simps) (auto simp: Less_def Let_def)
    moreover have "up_inv (items h) j \<longrightarrow> heap_ok (items h)"
      using True up_inv_stop[of "items h" j] by auto
    ultimately show ?thesis using "1.prems"(1) by simp
  next
    case False
    then have ne: "?i \<noteq> j" and lt: "items h ! j < items h ! ?i" by auto
    have j0: "0 < j" using ne by (cases "j = 0") (auto simp: parent_def)
    have il: "?i < length (items h)" using "1.prems"(2) parent_less[OF j0] by simp
    have L: "Less h j ?i = Inr True" using lt il "1.prems"(2) by (simp add: Less_def)
    from Swap_wf[OF "1.prems"(1) il "1.prems"(2)] obtain h1 where
      h1: "Swap h ?i j = Inr h1"
        "items h1 = (items h)[?i := items h ! j, j := items h ! ?i]" "wf_heap h1"
      by blast
    have len: "?i < length (items h1)" using il h1(2) by simp
    from "1.IH"[OF refl ne L _ h1(1) h1(3) len] obtain h' where
      h': "heap_up h1 ?i = Inr h'" "wf_heap h'" "mset (items h') = mset (items h1)"
         "up_inv (items h1) ?i \<longrightarrow> heap_ok (items h')"
      by auto
    have e: "heap_up h j = Inr h'"
      using ne L h1(1) h'(1) by (subst heap_up.simps) (simp add: Let_def)
    have m: "mset (items h1) = mset (items h)"
      using il "1.prems"(2) by (simp add: h1(2) mset_swap)
    have "up_inv (items h) j \<longrightarrow> heap_ok (items h')"
      using h'(4) up_inv_swap[OF _ "1.prems"(2) ne lt] by (simp add: h1(2))
    with e h'(2,3) m show ?thesis by simp
  qed
qed

lemma down_loop_unfold:
  assumes "\<not> n \<le> 2 * i + 1"
    and "(if 2 * i + 1 + 1 < n then Less h (2 * i + 1 + 1) (2 * i + 1) else Inr False) = Inr r"
    and "j = (if r then 2 * i + 1 + 1 else 2 * i + 1)"
    and "Less h j i = Inr b"
  shows "down_loop h i n =
         (if \<not> b then Inr (h, i)
          else (case Swap h i j of Inl err \<Rightarrow> Inl err | Inr h' \<Rightarrow> down_loop h' j n))"
  using assms by (subst down_loop.simps) (auto simp: Let_def split: if_splits)

lemma down_loop_correct:
  "wf_heap h \<Longrightarrow> i < length (items h) \<Longrightarrow> n = length (items h) \<Longrightarrow>
   \<exists>h' i'. down_loop h i n = Inr (h', i') \<and> wf_heap h' \<and>
        mset (items h') = mset (items h) \<and>
        (down_inv (items h) i \<longrightarrow> heap_ok (items h')) \<and>
        ((\<forall>k. 0 < k \<and> k < n \<and> parent k = i \<longrightarrow> items h ! i \<le> items h ! k) \<longrightarrow>
           h' = h \<and> i' = i)"
proof (induction h i n rule: down_loop.induct)
  case (1 h i n)
  let ?xs = "items h"
  let ?j1 = "2 * i + 1"
  note n = "1.prems"(3)
  show ?case
  proof (cases "?j1 \<ge> n")
    case True
    have e: "down_loop h i n = Inr (h, i)"
      using True by (subst down_loop.simps) (simp add: Let_def)
    have nc: "\<forall>k. 0 < k \<and> k < length ?xs \<and> parent k = i \<longrightarrow> ?xs ! i \<le> ?xs ! k"
    proof (intro allI impI)
      fix k assume k: "0 < k \<and> k < length ?xs \<and> parent k = i"
      then have "k = ?j1 \<or> k = ?j1 + 1" using parent_eq_iff[of k i] by auto
      then show "?xs ! i \<le> ?xs ! k" using k True n by auto
    qed
    then have "down_inv ?xs i \<longrightarrow> heap_ok ?xs" using down_inv_stop by blast
    with e "1.prems"(1) show ?thesis by simp
  next
    case False
    define r where "r \<longleftrightarrow> ?j1 + 1 < n \<and> ?xs ! (?j1 + 1) < ?xs ! ?j1"
    define j where "j = (if r then ?j1 + 1 else ?j1)"
    have R: "(if ?j1 + 1 < n then Less h (?j1 + 1) ?j1 else Inr False) = Inr r"
      using False n by (auto simp: r_def Less_def)
    have jn: "j < length ?xs" using False n by (auto simp: j_def r_def)
    have j0: "0 < j" by (simp add: j_def)
    have pj: "parent j = i" using parent_eq_iff[OF j0, of i] by (auto simp: j_def)
    have m: "\<forall>k. 0 < k \<and> k < length ?xs \<and> parent k = i \<longrightarrow> ?xs ! j \<le> ?xs ! k"
    proof (intro allI impI)
      fix k assume k: "0 < k \<and> k < length ?xs \<and> parent k = i"
      then have "k = ?j1 \<or> k = ?j1 + 1" using parent_eq_iff[of k i] by auto
      then show "?xs ! j \<le> ?xs ! k" using k n by (auto simp: j_def r_def)
    qed
    show ?thesis
    proof (cases "?xs ! j < ?xs ! i")
      case nlt: False
      have L: "Less h j i = Inr False" using nlt jn "1.prems"(2) by (simp add: Less_def)
      have e: "down_loop h i n = Inr (h, i)"
        using down_loop_unfold[OF False R j_def L] by simp
      have "\<forall>k. 0 < k \<and> k < length ?xs \<and> parent k = i \<longrightarrow> ?xs ! i \<le> ?xs ! k"
        using m nlt by fastforce
      then have "down_inv ?xs i \<longrightarrow> heap_ok ?xs" using down_inv_stop by blast
      with e "1.prems"(1) show ?thesis by simp
    next
      case lt: True
      have L: "Less h j i = Inr True" using lt jn "1.prems"(2) by (simp add: Less_def)
      from Swap_wf[OF "1.prems"(1,2) jn] obtain h1 where
        h1: "Swap h i j = Inr h1"
          "items h1 = ?xs[i := ?xs ! j, j := ?xs ! i]" "wf_heap h1"
        by blast
      have len: "j < length (items h1)" "n = length (items h1)" using jn n h1(2) by simp_all
      from "1.IH"[OF refl False R j_def L _ h1(1) h1(3) len] obtain h' i' where
        h': "down_loop h1 j n = Inr (h', i')" "wf_heap h'" "mset (items h') = mset (items h1)"
          "down_inv (items h1) j \<longrightarrow> heap_ok (items h')"
        by auto
      have e: "down_loop h i n = Inr (h', i')"
        using down_loop_unfold[OF False R j_def L] h1(1) h'(1) by simp
      have ms: "mset (items h1) = mset ?xs"
        using jn "1.prems"(2) by (simp add: h1(2) mset_swap)
      have a: "down_inv ?xs i \<longrightarrow> heap_ok (items h')"
        using h'(4) down_inv_swap[OF _ jn j0 pj lt m] by (simp add: h1(2))
      have b: "\<not> (\<forall>k. 0 < k \<and> k < n \<and> parent k = i \<longrightarrow> ?xs ! i \<le> ?xs ! k)"
        using lt jn j0 pj n by (auto intro!: exI[of _ j])
      from e h'(2,3) ms a b show ?thesis by auto
    qed
  qed
qed

lemma heap_ok_up_inv: "heap_ok xs \<Longrightarrow> j < length xs \<Longrightarrow> up_inv xs j"
  unfolding heap_ok_def up_inv_def
  by (metis order_trans)

lemma heap_ok_min: "heap_ok xs \<Longrightarrow> k < length xs \<Longrightarrow> xs ! 0 \<le> xs ! k"
proof (induction k rule: less_induct)
  case (less k)
  show ?case
  proof (cases "k = 0")
    case True
    then show ?thesis by simp
  next
    case False
    then have p: "parent k < k" by (simp add: parent_less)
    then have "xs ! 0 \<le> xs ! parent k" using less by simp
    moreover have "xs ! parent k \<le> xs ! k" using less.prems False by (simp add: heap_ok_def)
    ultimately show ?thesis by simp
  qed
qed

lemma Push_wf:
  assumes "wf_heap h" "x \<notin> set (items h)"
  shows "wf_heap (Push h x)"
  unfolding wf_heap_def
proof (intro allI)
  fix v k
  have w: "index h v = Some k \<longleftrightarrow> k < length (items h) \<and> items h ! k = v"
    using assms(1) by (simp add: wf_heap_def)
  show "index (Push h x) v = Some k \<longleftrightarrow>
          k < length (items (Push h x)) \<and> items (Push h x) ! k = v"
    using w assms(2) by (auto simp: Push_def nth_append less_Suc_eq)
qed

lemma heap_ok_snoc_up_inv: "heap_ok xs \<Longrightarrow> up_inv (xs @ [x]) (length xs)"
  unfolding heap_ok_def up_inv_def
proof (intro conjI allI impI)
  fix k assume a: "\<forall>k. 0 < k \<and> k < length xs \<longrightarrow> xs ! parent k \<le> xs ! k"
    and k: "0 < k \<and> k < length (xs @ [x]) \<and> k \<noteq> length xs"
  then have kl: "k < length xs" by simp
  then have "parent k < length xs" using parent_less[of k] k by simp
  then show "(xs @ [x]) ! parent k \<le> (xs @ [x]) ! k" using a k kl by (simp add: nth_append)
next
  fix k assume k: "0 < k \<and> k < length (xs @ [x]) \<and> parent k = length xs \<and> 0 < length xs"
  then have a: "k < Suc (length xs)" and b: "parent k = length xs" and c: "0 < k"
    by simp_all
  from parent_less[OF c] b have "length xs < k" by simp
  with a have False by linarith
  then show "(xs @ [x]) ! parent (length xs) \<le> (xs @ [x]) ! k" ..
qed

lemma Insert_heap_correct:
  assumes "wf_heap h" "x \<notin> set (items h)"
  shows "\<exists>h'. Insert_heap h x = Inr h' \<and> wf_heap h' \<and>
           mset (items h') = add_mset x (mset (items h)) \<and>
           (heap_ok (items h) \<longrightarrow> heap_ok (items h'))"
proof -
  let ?h1 = "Push h x"
  have w1: "wf_heap ?h1" using assms by (rule Push_wf)
  have i1: "items ?h1 = items h @ [x]" by (simp add: Push_def)
  have l1: "Len ?h1 - 1 = length (items h)" by (simp add: Len_def i1)
  have l2: "Len ?h1 - Suc 0 = length (items h)" by (simp add: Len_def i1)
  have "length (items h) < length (items ?h1)" by (simp add: i1)
  from heap_up_correct[OF w1 this] obtain h' where
    h': "heap_up ?h1 (length (items h)) = Inr h'" "wf_heap h'"
      "mset (items h') = mset (items ?h1)"
      "up_inv (items ?h1) (length (items h)) \<longrightarrow> heap_ok (items h')"
    by blast
  have "Insert_heap h x = Inr h'"
    using h'(1) by (simp add: Insert_heap_def heap_Push_def Let_def l2)
  moreover have "heap_ok (items h) \<longrightarrow> heap_ok (items h')"
    using h'(4) heap_ok_snoc_up_inv[of "items h" x] by (simp add: i1)
  ultimately show ?thesis using h'(2,3) by (simp add: i1)
qed

lemma heap_Fix_correct:
  assumes "wf_heap h" "i < length (items h)"
  shows "\<exists>h'. heap_Fix h i = Inr h' \<and> wf_heap h' \<and> mset (items h') = mset (items h) \<and>
           (fix_pre (items h) i \<longrightarrow> heap_ok (items h'))"
proof -
  let ?xs = "items h"
  from down_loop_correct[OF assms refl] obtain h1 i1 where
    d: "down_loop h i (length ?xs) = Inr (h1, i1)" "wf_heap h1" "mset (items h1) = mset ?xs"
       "down_inv ?xs i \<longrightarrow> heap_ok (items h1)"
       "(\<forall>k. 0 < k \<and> k < length ?xs \<and> parent k = i \<longrightarrow> ?xs ! i \<le> ?xs ! k) \<longrightarrow> h1 = h \<and> i1 = i"
    by blast
  have len1: "length (items h1) = length ?xs" using d(3) by (metis size_mset)
  then have il1: "i < length (items h1)" using assms(2) by simp
  from heap_up_correct[OF d(2) il1] obtain h2 where
    u: "heap_up h1 i = Inr h2" "wf_heap h2" "mset (items h2) = mset (items h1)"
       "up_inv (items h1) i \<longrightarrow> heap_ok (items h2)"
    by blast
  define h' where "h' = (if \<not> i < i1 then h2 else h1)"
  have e: "heap_Fix h i = Inr h'"
    using d(1) u(1) by (simp add: heap_Fix_def heap_down_def Len_def h'_def)
  have w: "wf_heap h'" using d(2) u(2) by (simp add: h'_def)
  have m: "mset (items h') = mset ?xs" using d(3) u(3) by (simp add: h'_def)
  have ok: "heap_ok (items h')" if fp: "fix_pre ?xs i"
  proof (cases "i = 0 \<or> ?xs ! parent i \<le> ?xs ! i")
    case True
    have "down_inv ?xs i"
      unfolding down_inv_def
    proof (intro conjI allI impI)
      fix k assume k: "0 < k \<and> k < length ?xs \<and> parent k \<noteq> i"
      show "?xs ! parent k \<le> ?xs ! k"
      proof (cases "k = i")
        case True
        then show ?thesis using \<open>i = 0 \<or> ?xs ! parent i \<le> ?xs ! i\<close> k by auto
      next
        case False
        then show ?thesis using fp k by (simp add: fix_pre_def)
      qed
    next
      fix k assume "0 < k \<and> k < length ?xs \<and> parent k = i \<and> 0 < i"
      then show "?xs ! parent i \<le> ?xs ! k" using fp by (simp add: fix_pre_def)
    qed
    then have ok1: "heap_ok (items h1)" using d(4) by simp
    then have "heap_ok (items h2)" using u(4) heap_ok_up_inv[OF ok1 il1] by simp
    with ok1 show ?thesis by (simp add: h'_def)
  next
    case False
    then have i0: "0 < i" and lt: "?xs ! i < ?xs ! parent i" by auto
    have ch: "\<forall>k. 0 < k \<and> k < length ?xs \<and> parent k = i \<longrightarrow> ?xs ! i \<le> ?xs ! k"
    proof (intro allI impI)
      fix k assume k: "0 < k \<and> k < length ?xs \<and> parent k = i"
      then have "?xs ! parent i \<le> ?xs ! k" using fp i0 by (simp add: fix_pre_def)
      with lt show "?xs ! i \<le> ?xs ! k" by simp
    qed
    then have same: "h1 = h" "i1 = i" using d(5) by simp_all
    have "up_inv ?xs i"
      unfolding up_inv_def
    proof (intro conjI allI impI)
      fix k assume k: "0 < k \<and> k < length ?xs \<and> k \<noteq> i"
      show "?xs ! parent k \<le> ?xs ! k"
      proof (cases "parent k = i")
        case True
        then show ?thesis using ch k by simp
      next
        case False
        then show ?thesis using fp k by (simp add: fix_pre_def)
      qed
    next
      fix k assume "0 < k \<and> k < length ?xs \<and> parent k = i \<and> 0 < i"
      then show "?xs ! parent i \<le> ?xs ! k" using fp by (simp add: fix_pre_def)
    qed
    then have "heap_ok (items h2)" using u(4) same by simp
    then show ?thesis using same by (simp add: h'_def)
  qed
  from e w m ok show ?thesis by blast
qed

lemma Remove_absent:
  assumes "wf_heap h" "x \<notin> set (items h)"
  shows "Remove h x = Inr (False, h)"
proof -
  have "index h x = None"
  proof (cases "index h x")
    case (Some k)
    then have "k < length (items h) \<and> items h ! k = x" using assms(1) by (simp add: wf_heap_def)
    then have "x \<in> set (items h)" by auto
    with assms(2) show ?thesis by simp
  qed simp
  then show ?thesis by (simp add: Remove_def)
qed

lemma Remove_present:
  assumes "wf_heap h" "x \<in> set (items h)"
  shows "\<exists>h'. Remove h x = Inr (True, h') \<and> wf_heap h' \<and>
           mset (items h') = mset (items h) - {#x#} \<and>
           (heap_ok (items h) \<longrightarrow> heap_ok (items h'))"
proof -
  let ?xs = "items h"
  let ?last = "length ?xs - 1"
  from assms(2) obtain i where i: "i < length ?xs" "?xs ! i = x" by (auto simp: in_set_conv_nth)
  then have ix: "index h x = Some i" using assms(1) by (simp add: wf_heap_def)
  have ll: "?last < length ?xs" using i(1) by simp
  have il: "i \<le> ?last" using i(1) by simp
  from Swap_wf[OF assms(1) i(1) ll] obtain h1 where
    h1: "Swap h i ?last = Inr h1" "items h1 = ?xs[i := ?xs ! ?last, ?last := ?xs ! i]"
      "wf_heap h1"
    by blast
  let ?ys = "items h1"
  let ?zs = "take ?last ?ys"
  define h3 where "h3 = h1\<lparr>items := ?zs, index := (index h1)(x := None)\<rparr>"
  have leny: "length ?ys = length ?xs" by (simp add: h1(2))
  have ylast: "?ys ! ?last = x" using ll i(2) by (simp add: h1(2))
  have lenz: "length ?zs = ?last" using leny by simp
  have zk: "?zs ! k = (if k = i then ?xs ! ?last else ?xs ! k)" if "k < ?last" for k
    using that i(1) by (simp add: h1(2))
  have ysplit: "?ys = ?zs @ [x]"
    using take_Suc_conv_app_nth[of ?last ?ys] ll leny ylast by simp
  have my: "mset ?ys = mset ?xs" using i(1) ll by (simp add: h1(2) mset_swap)
  have mz: "mset ?zs = mset ?xs - {#x#}"
  proof -
    have "mset ?ys = add_mset x (mset ?zs)" by (subst ysplit) simp
    with my have "mset ?xs = add_mset x (mset ?zs)" by simp
    then show ?thesis by simp
  qed
  have w1: "index h1 v = Some k \<longleftrightarrow> k < length ?ys \<and> ?ys ! k = v" for v k
    using h1(3) by (simp add: wf_heap_def)
  have w3: "wf_heap h3"
    unfolding wf_heap_def
  proof (intro allI)
    fix v k
    show "index h3 v = Some k \<longleftrightarrow> k < length (items h3) \<and> items h3 ! k = v"
    proof (cases "v = x")
      case True
      have "\<not> (k < ?last \<and> ?ys ! k = x)"
      proof
        assume a: "k < ?last \<and> ?ys ! k = x"
        then have "index h1 x = Some k" "index h1 x = Some ?last"
          using w1[of x k] w1[of x ?last] ll leny ylast by simp_all
        with a show False by simp
      qed
      then show ?thesis using True leny by (auto simp: h3_def)
    next
      case False
      have "k < length ?ys \<and> ?ys ! k = v \<longleftrightarrow> k < ?last \<and> ?ys ! k = v"
        using False ylast leny by (cases "k = ?last") auto
      then show ?thesis using False w1[of v k] leny by (auto simp: h3_def)
    qed
  qed
  have i3: "items h3 = ?zs" by (simp add: h3_def)
  show ?thesis
  proof (cases "i < ?last")
    case True
    then have il3: "i < length (items h3)" using lenz by (simp add: i3)
    from heap_Fix_correct[OF w3 il3] obtain h4 where
      h4: "heap_Fix h3 i = Inr h4" "wf_heap h4" "mset (items h4) = mset (items h3)"
        "fix_pre (items h3) i \<longrightarrow> heap_ok (items h4)"
      by blast
    have e: "Remove h x = Inr (True, h4)"
      using ix h1(1) h4(1) il3 unfolding Remove_def Let_def h3_def by simp
    have ok: "heap_ok (items h4)" if hk: "heap_ok ?xs"
    proof -
      have pe: "?xs ! parent k \<le> ?xs ! k" if "0 < k" "k < length ?xs" for k
        using hk that by (simp add: heap_ok_def)
      have "fix_pre ?zs i"
        unfolding fix_pre_def
      proof (intro conjI allI impI)
        fix k assume k: "0 < k \<and> k < length ?zs \<and> k \<noteq> i \<and> parent k \<noteq> i"
        then have kl: "k < ?last" using lenz by simp
        moreover have "parent k < ?last" using parent_less[of k] k kl by simp
        ultimately show "?zs ! parent k \<le> ?zs ! k" using k zk pe[of k] by simp
      next
        fix k assume k: "0 < k \<and> k < length ?zs \<and> parent k = i \<and> 0 < i"
        then have kl: "k < ?last" using lenz by simp
        have ki: "k \<noteq> i" using parent_less[of k] k by auto
        have pil: "parent i < i" using k by (simp add: parent_less)
        then have "?zs ! parent i = ?xs ! parent i" using True zk[of "parent i"] by simp
        moreover have "?zs ! k = ?xs ! k" using kl ki zk by simp
        moreover have "?xs ! parent i \<le> ?xs ! i" using pe[of i] k i(1) by simp
        moreover have "?xs ! i \<le> ?xs ! k" using pe[of k] k kl by auto
        ultimately show "?zs ! parent i \<le> ?zs ! k" by simp
      qed
      then show ?thesis using h4(4) by (simp add: i3)
    qed
    from e h4(2,3) mz ok show ?thesis by (auto simp: i3)
  next
    case False
    then have eq: "i = ?last" using il by simp
    have e: "Remove h x = Inr (True, h3)"
      using ix h1(1) False lenz unfolding Remove_def Let_def h3_def by simp
    have ok: "heap_ok ?zs" if hk: "heap_ok ?xs"
      unfolding heap_ok_def
    proof (intro allI impI)
      fix k assume k: "0 < k \<and> k < length ?zs"
      then have kl: "k < ?last" using lenz by simp
      moreover have "parent k < ?last" using parent_less[of k] k kl by simp
      ultimately show "?zs ! parent k \<le> ?zs ! k"
        using hk k eq zk[of k] zk[of "parent k"] by (simp add: heap_ok_def)
    qed
    from e w3 mz ok show ?thesis by (auto simp: i3)
  qed
qed

lemma heap_inv_New: "heap_inv NewItemHeap"
  by (simp add: heap_inv_def wf_heap_def heap_ok_def NewItemHeap_def)

lemma Swap_Inr_range: "Swap h i j = Inr h' \<Longrightarrow> i < length (items h) \<and> j < length (items h)"
  by (auto simp: Swap_def split: if_splits)

lemma Pop_wf:
  assumes "wf_heap h" "Pop h = Inr (v, h')"
  shows "wf_heap h'"
proof -
  let ?xs = "items h"
  let ?n = "length ?xs"
  from assms(2) have n0: "?n \<noteq> 0" and v: "v = ?xs ! (?n - 1)"
    and h': "h' = \<lparr> items = take (?n - 1) ?xs, index = (index h)(v := None) \<rparr>"
    by (auto simp: Pop_def Let_def split: if_splits)
  have w: "index h u = Some k \<longleftrightarrow> k < ?n \<and> ?xs ! k = u" for u k
    using assms(1) by (simp add: wf_heap_def)
  show ?thesis
    unfolding wf_heap_def
  proof (intro allI)
    fix u k
    show "index h' u = Some k \<longleftrightarrow> k < length (items h') \<and> items h' ! k = u"
    proof (cases "u = v")
      case True
      have "\<not> (k < ?n - 1 \<and> ?xs ! k = v)"
      proof
        assume a: "k < ?n - 1 \<and> ?xs ! k = v"
        then have kn: "k < ?n" by linarith
        have "index h v = Some k" using w[of v k] a kn by simp
        moreover have "index h v = Some (?n - 1)" using w[of v "?n - 1"] n0 v by simp
        ultimately show False using a by simp
      qed
      then show ?thesis using True by (auto simp: h')
    next
      case False
      have "k < ?n \<and> ?xs ! k = u \<longleftrightarrow> k < ?n - 1 \<and> ?xs ! k = u"
        using False v n0 by (cases "k = ?n - 1") auto
      then show ?thesis using False w[of u k] by (auto simp: h')
    qed
  qed
qed

lemma Remove_total:
  assumes "wf_heap h"
  shows "\<exists>b h'. Remove h x = Inr (b, h') \<and> wf_heap h' \<and>
           (heap_ok (items h) \<longrightarrow> heap_ok (items h')) \<and>
           set (items h') = set (items h) - {x} \<and>
           (b \<longleftrightarrow> x \<in> set (items h)) \<and>
           length (items h') = length (items h) - (if b then 1 else 0)"
proof (cases "x \<in> set (items h)")
  case False
  then show ?thesis using Remove_absent[OF assms False] assms by auto
next
  case True
  from Remove_present[OF assms True] obtain h' where
    h': "Remove h x = Inr (True, h')" "wf_heap h'" "mset (items h') = mset (items h) - {#x#}"
      "heap_ok (items h) \<longrightarrow> heap_ok (items h')"
    by blast
  have d: "distinct (items h)" using assms by (simp add: wf_heap_iff)
  have "x \<in># mset (items h)" using True by simp
  then have a: "mset (items h) = add_mset x (mset (items h'))" using h'(3) by simp
  then have "set_mset (mset (items h)) = set_mset (add_mset x (mset (items h')))" by simp
  then have s1: "set (items h) = insert x (set (items h'))" by simp
  have "count (mset (items h)) x = Suc (count (mset (items h')) x)" by (subst a) simp
  moreover have "count (mset (items h)) x \<le> 1"
    using d by (simp add: distinct_count_atmost_1)
  ultimately have "count (mset (items h')) x = 0" by simp
  then have nx: "x \<notin> set (items h')" by (simp add: count_eq_zero_iff)
  have s: "set (items h') = set (items h) - {x}" using s1 nx by auto
  have "size (mset (items h)) = Suc (size (mset (items h')))" by (subst a) simp
  then have l: "length (items h') = length (items h) - 1" by simp
  from h' s l True show ?thesis by auto
qed

lemma Insert_heap_inv:
  assumes "heap_inv h" "x \<notin> set (items h)"
  shows "\<exists>h'. Insert_heap h x = Inr h' \<and> heap_inv h' \<and> set (items h') = insert x (set (items h))"
proof -
  from assms Insert_heap_correct[of h x] obtain h' where
    h': "Insert_heap h x = Inr h'" "wf_heap h'"
      "mset (items h') = add_mset x (mset (items h))" "heap_ok (items h')"
    by (auto simp: heap_inv_def)
  from h'(3) have "set_mset (mset (items h')) = set_mset (add_mset x (mset (items h)))"
    by simp
  then have "set (items h') = insert x (set (items h))" by simp
  with h' show ?thesis by (auto simp: heap_inv_def)
qed

lemma heap_run_inv:
  "heap_inv h \<Longrightarrow> distinct_ops (set (items h)) ops \<Longrightarrow>
   \<exists>h'. heap_run h ops = Inr h' \<and> heap_inv h' \<and> set (items h') = present (set (items h)) ops"
proof (induction ops arbitrary: h)
  case Nil
  then show ?case by simp
next
  case (Cons a ops)
  show ?case
  proof (cases a)
    case (HInsert x)
    with Cons.prems have nx: "x \<notin> set (items h)"
      and d: "distinct_ops (insert x (set (items h))) ops" by simp_all
    from Insert_heap_inv[OF Cons.prems(1) nx] obtain h1 where
      h1: "Insert_heap h x = Inr h1" "heap_inv h1" "set (items h1) = insert x (set (items h))"
      by blast
    from Cons.IH[OF h1(2)] d h1(3) obtain h' where
      "heap_run h1 ops = Inr h'" "heap_inv h'" "set (items h') = present (set (items h1)) ops"
      by auto
    then show ?thesis using h1 HInsert by simp
  next
    case (HRemove x)
    with Cons.prems have d: "distinct_ops (set (items h) - {x}) ops" by simp
    from Cons.prems(1) Remove_total[of h x] obtain b h1 where
      h1: "Remove h x = Inr (b, h1)" "heap_inv h1" "set (items h1) = set (items h) - {x}"
      by (auto simp: heap_inv_def)
    from Cons.IH[OF h1(2)] d h1(3) obtain h' where
      "heap_run h1 ops = Inr h'" "heap_inv h'" "set (items h') = present (set (items h1)) ops"
      by auto
    then show ?thesis using h1 HRemove by simp
  qed
qed

lemma reachable_heap:
  "distinct_ops {} ops \<Longrightarrow>
   \<exists>h. heap_run NewItemHeap ops = Inr h \<and> heap_inv h \<and> set (items h) = present {} ops"
  using heap_run_inv[OF heap_inv_New, of ops] by (simp add: NewItemHeap_def)

lemma distinct_inserted_values:
  "distinct (inserted_values ops) \<Longrightarrow> S \<inter> set (inserted_values ops) = {} \<Longrightarrow>
   distinct_ops S ops"
  by (induction S ops rule: distinct_ops.induct) auto

lemma GetMin_Min:
  assumes "heap_ok (items h)" "items h \<noteq> []"
  shows "GetMin h = Inr (Min (set (items h)))"
proof -
  have "items h ! 0 \<in> set (items h)" using assms(2) by simp
  moreover have "\<forall>y \<in> set (items h). items h ! 0 \<le> y"
    using heap_ok_min[OF assms(1)] by (auto simp: in_set_conv_nth)
  ultimately have "Min (set (items h)) = items h ! 0"
    by (intro Min_eqI) auto
  then show ?thesis using assms(2) by (simp add: GetMin_def)
qed

lemma present_not_inserted:
  "x \<notin> S \<Longrightarrow> x \<notin> set (inserted_values ops) \<Longrightarrow> x \<notin> present S ops"
  by (induction S ops rule: present.induct) auto

text \<open>
  A value is present iff some \<^verbatim>\<open>Insert\<close> of it is followed by no \<^verbatim>\<open>Remove\<close> of it;
  and \<^verbatim>\<open>Init\<close> leaves a fresh heap as it is.
\<close>

lemma present_iff:
  "x \<in> present S ops \<longleftrightarrow>
     (x \<in> S \<and> HRemove x \<notin> set ops) \<or>
     (\<exists>pre post. ops = pre @ HInsert x # post \<and> HRemove x \<notin> set post)"
proof (induction S ops rule: present.induct)
  case (1 S)
  then show ?case by simp
next
  case (2 S y ops)
  show ?case
  proof (cases "y = x")
    case True
    have "(\<exists>pre post. HInsert x # ops = pre @ HInsert x # post \<and> HRemove x \<notin> set post) \<longleftrightarrow>
          HRemove x \<notin> set ops \<or>
          (\<exists>pre post. ops = pre @ HInsert x # post \<and> HRemove x \<notin> set post)"
      by (auto simp: Cons_eq_append_conv)
    then show ?thesis using 2 True by auto
  next
    case False
    have "(\<exists>pre post. HInsert y # ops = pre @ HInsert x # post \<and> HRemove x \<notin> set post) \<longleftrightarrow>
          (\<exists>pre post. ops = pre @ HInsert x # post \<and> HRemove x \<notin> set post)"
      using False by (auto simp: Cons_eq_append_conv)
    then show ?thesis using 2 False by auto
  qed
next
  case (3 S y ops)
  have "(\<exists>pre post. HRemove y # ops = pre @ HInsert x # post \<and> HRemove x \<notin> set post) \<longleftrightarrow>
        (\<exists>pre post. ops = pre @ HInsert x # post \<and> HRemove x \<notin> set post)"
    by (auto simp: Cons_eq_append_conv)
  then show ?case using 3 by auto
qed

lemma Init_fresh: "Init NewItemHeap = Inr NewItemHeap"
  by (simp add: Init_def heap_Init_def Len_def NewItemHeap_def)

section \<open>Claims about the heap\<close>

text \<open>
  C1. For every sequence of \<^verbatim>\<open>Insert\<close> and \<^verbatim>\<open>Remove\<close> calls on a fresh heap in which
  no value is inserted while it is present (in particular when the inserted values are
  pairwise distinct), the run does not panic, the slice holds exactly the values
  present, and when that set is not empty \<^verbatim>\<open>GetMin\<close> returns its minimum, which is
  still in the heap: \<^verbatim>\<open>GetMin\<close> only reads.
\<close>

theorem GetMin_smallest:
  assumes "distinct_ops {} ops"
  shows "\<exists>h. heap_run NewItemHeap ops = Inr h \<and> set (items h) = present {} ops \<and>
           (present {} ops \<noteq> {} \<longrightarrow>
              GetMin h = Inr (Min (present {} ops)) \<and> Min (present {} ops) \<in> set (items h))"
proof -
  from reachable_heap[OF assms] obtain h where
    h: "heap_run NewItemHeap ops = Inr h" "heap_inv h" "set (items h) = present {} ops"
    by blast
  have "GetMin h = Inr (Min (present {} ops)) \<and> Min (present {} ops) \<in> set (items h)"
    if "present {} ops \<noteq> {}"
  proof -
    from that h(3) have ne: "items h \<noteq> []" by auto
    have "Min (set (items h)) \<in> set (items h)" using ne by (intro Min_in) simp_all
    with GetMin_Min[of h] h(2,3) ne show ?thesis by (simp add: heap_inv_def)
  qed
  with h show ?thesis by blast
qed

theorem GetMin_smallest_witness:
  "distinct_ops {} [HInsert 5, HInsert 3, HInsert 8] \<and>
   GetMin_after [HInsert 5, HInsert 3, HInsert 8] = Inr 3 \<and>
   distinct_ops {} [HInsert 5, HInsert 3, HInsert 8, HRemove 3] \<and>
   GetMin_after [HInsert 5, HInsert 3, HInsert 8, HRemove 3] = Inr 5"
proof -
  let ?A = "[HInsert 5, HInsert 3, HInsert 8]"
  let ?B = "[HInsert 5, HInsert 3, HInsert 8, HRemove 3]"
  have h1: "distinct_ops {} ?A" by simp
  have h2: "distinct_ops {} ?B" by simp
  have n1: "present {} ?A \<noteq> {}" and m1: "Min (present {} ?A) = 3" by simp_all
  have e2: "present {} ?B = {8, 5}" by auto
  have n2: "present {} ?B \<noteq> {}" and m2: "Min (present {} ?B) = 5"
    unfolding e2 by simp_all
  from GetMin_smallest[OF h1] obtain a where
    a: "heap_run NewItemHeap ?A = Inr a"
       "present {} ?A \<noteq> {} \<longrightarrow>
          GetMin a = Inr (Min (present {} ?A)) \<and> Min (present {} ?A) \<in> set (items a)"
    by blast
  from a(2) n1 have "GetMin a = Inr (Min (present {} ?A))" by blast
  then have g1: "GetMin_after ?A = Inr 3"
    unfolding GetMin_after_def a(1) m1 by (simp only: sum.case)
  from GetMin_smallest[OF h2] obtain b where
    b: "heap_run NewItemHeap ?B = Inr b"
       "present {} ?B \<noteq> {} \<longrightarrow>
          GetMin b = Inr (Min (present {} ?B)) \<and> Min (present {} ?B) \<in> set (items b)"
    by blast
  from b(2) n2 have "GetMin b = Inr (Min (present {} ?B))" by blast
  then have g2: "GetMin_after ?B = Inr 5"
    unfolding GetMin_after_def b(1) m2 by (simp only: sum.case)
  from h1 g1 h2 g2 show ?thesis by (intro conjI)
qed

text \<open>
  C2. After every such sequence the index and the slice are in sync: each value \<open>v\<close> in
  \<^verbatim>\<open>items\<close> has \<^verbatim>\<open>items[index[v]] == v\<close>, and the keys of \<^verbatim>\<open>index\<close> are the values in
  \<^verbatim>\<open>items\<close> (which are distinct). Moreover, from any state that is in sync with distinct
  values, each mutation keeps it so: \<^verbatim>\<open>Swap\<close>, \<^verbatim>\<open>Push\<close> of an absent value,
  \<^verbatim>\<open>Pop\<close>, \<^verbatim>\<open>heap.Fix\<close> at a valid position (which also does not panic), \<^verbatim>\<open>Insert\<close>
  of an absent value and \<^verbatim>\<open>Remove\<close> of any value.
\<close>

theorem index_in_sync:
  assumes "distinct_ops {} ops"
  shows "(\<exists>h. heap_run NewItemHeap ops = Inr h \<and> in_sync h \<and> distinct (items h)) \<and>
         (\<forall>g. in_sync g \<and> distinct (items g) \<longrightarrow>
            (\<forall>i j g'. Swap g i j = Inr g' \<longrightarrow> in_sync g' \<and> distinct (items g')) \<and>
            (\<forall>x. x \<notin> set (items g) \<longrightarrow> in_sync (Push g x) \<and> distinct (items (Push g x))) \<and>
            (\<forall>v g'. Pop g = Inr (v, g') \<longrightarrow> in_sync g' \<and> distinct (items g')) \<and>
            (\<forall>i. i < length (items g) \<longrightarrow>
               (\<exists>g'. heap_Fix g i = Inr g' \<and> in_sync g' \<and> distinct (items g'))) \<and>
            (\<forall>x. x \<notin> set (items g) \<longrightarrow>
               (\<exists>g'. Insert_heap g x = Inr g' \<and> in_sync g' \<and> distinct (items g'))) \<and>
            (\<forall>x. \<exists>b g'. Remove g x = Inr (b, g') \<and> in_sync g' \<and> distinct (items g')))"
proof -
  from reachable_heap[OF assms] have A: "\<exists>h. heap_run NewItemHeap ops = Inr h \<and> in_sync h \<and> distinct (items h)"
    by (auto simp: heap_inv_def wf_heap_iff)
  have B: "(\<forall>i j g'. Swap g i j = Inr g' \<longrightarrow> in_sync g' \<and> distinct (items g')) \<and>
            (\<forall>x. x \<notin> set (items g) \<longrightarrow> in_sync (Push g x) \<and> distinct (items (Push g x))) \<and>
            (\<forall>v g'. Pop g = Inr (v, g') \<longrightarrow> in_sync g' \<and> distinct (items g')) \<and>
            (\<forall>i. i < length (items g) \<longrightarrow>
               (\<exists>g'. heap_Fix g i = Inr g' \<and> in_sync g' \<and> distinct (items g'))) \<and>
            (\<forall>x. x \<notin> set (items g) \<longrightarrow>
               (\<exists>g'. Insert_heap g x = Inr g' \<and> in_sync g' \<and> distinct (items g'))) \<and>
            (\<forall>x. \<exists>b g'. Remove g x = Inr (b, g') \<and> in_sync g' \<and> distinct (items g'))"
    if "in_sync g \<and> distinct (items g)" for g
  proof -
    from that have w: "wf_heap g" by (simp add: wf_heap_iff)
    have 1: "in_sync g' \<and> distinct (items g')" if "Swap g i j = Inr g'" for i j g'
      using Swap_wf[OF w, of i j] Swap_Inr_range[OF that] that by (auto simp: wf_heap_iff)
    have 2: "in_sync (Push g x) \<and> distinct (items (Push g x))" if "x \<notin> set (items g)" for x
      using Push_wf[OF w that] by (simp add: wf_heap_iff)
    have 3: "in_sync g' \<and> distinct (items g')" if "Pop g = Inr (v, g')" for v g'
      using Pop_wf[OF w that] by (simp add: wf_heap_iff)
    have 4: "\<exists>g'. heap_Fix g i = Inr g' \<and> in_sync g' \<and> distinct (items g')"
      if "i < length (items g)" for i
      using heap_Fix_correct[OF w that] by (auto simp: wf_heap_iff)
    have 5: "\<exists>g'. Insert_heap g x = Inr g' \<and> in_sync g' \<and> distinct (items g')"
      if "x \<notin> set (items g)" for x
      using Insert_heap_correct[OF w that] by (auto simp: wf_heap_iff)
    have 6: "\<exists>b g'. Remove g x = Inr (b, g') \<and> in_sync g' \<and> distinct (items g')" for x
      using Remove_total[OF w, of x] by (auto simp: wf_heap_iff)
    from 1 2 3 4 5 6 show ?thesis by blast
  qed
  from A B show ?thesis by blast
qed

theorem index_in_sync_witness:
  "distinct_ops {} [HInsert 5, HInsert 3, HInsert 8] \<and>
   (\<exists>h. heap_run NewItemHeap [HInsert 5, HInsert 3, HInsert 8] = Inr h \<and>
        in_sync h \<and> distinct (items h)) \<and>
   in_sync (Push NewItemHeap 7) \<and>
   (\<exists>b g'. Remove NewItemHeap 7 = Inr (b, g') \<and> in_sync g' \<and> distinct (items g'))"
proof -
  let ?A = "[HInsert 5, HInsert 3, HInsert 8]"
  have h: "distinct_ops {} ?A" by simp
  have n: "in_sync NewItemHeap \<and> distinct (items NewItemHeap)"
    by (simp add: in_sync_def NewItemHeap_def)
  have m: "(7::int) \<notin> set (items NewItemHeap)" by (simp add: NewItemHeap_def)
  note T = index_in_sync[OF h]
  from T have 1: "\<exists>h. heap_run NewItemHeap ?A = Inr h \<and> in_sync h \<and> distinct (items h)"
    by (rule conjunct1)
  from T have "\<forall>g. in_sync g \<and> distinct (items g) \<longrightarrow>
      (\<forall>i j g'. Swap g i j = Inr g' \<longrightarrow> in_sync g' \<and> distinct (items g')) \<and>
      (\<forall>x. x \<notin> set (items g) \<longrightarrow> in_sync (Push g x) \<and> distinct (items (Push g x))) \<and>
      (\<forall>v g'. Pop g = Inr (v, g') \<longrightarrow> in_sync g' \<and> distinct (items g')) \<and>
      (\<forall>i. i < length (items g) \<longrightarrow>
         (\<exists>g'. heap_Fix g i = Inr g' \<and> in_sync g' \<and> distinct (items g'))) \<and>
      (\<forall>x. x \<notin> set (items g) \<longrightarrow>
         (\<exists>g'. Insert_heap g x = Inr g' \<and> in_sync g' \<and> distinct (items g'))) \<and>
      (\<forall>x. \<exists>b g'. Remove g x = Inr (b, g') \<and> in_sync g' \<and> distinct (items g'))"
    by (rule conjunct2)
  from this[rule_format, OF n] m
  have 2: "in_sync (Push NewItemHeap 7)"
    and 3: "\<exists>b g'. Remove NewItemHeap 7 = Inr (b, g') \<and> in_sync g' \<and> distinct (items g')"
    by blast+
  from h 1 2 3 show ?thesis by (intro conjI)
qed

text \<open>
  C3. In every state reached by such a sequence: \<^verbatim>\<open>Remove(x)\<close> of an absent \<open>x\<close>
  returns false and the very same heap (slice and index); \<^verbatim>\<open>Remove(x)\<close> of a present
  \<open>x\<close> returns true, after which \<open>x\<close> is neither in the slice nor in the index, the other
  values are all still there, the length is smaller by exactly one, \<^verbatim>\<open>GetMin\<close> does not
  return \<open>x\<close>, and the same holds after any further operations that do not insert \<open>x\<close>
  again.
\<close>

theorem Remove_absent_or_present:
  assumes "distinct_ops {} ops"
  shows "\<exists>h. heap_run NewItemHeap ops = Inr h \<and> set (items h) = present {} ops \<and>
     (x \<notin> present {} ops \<longrightarrow> Remove h x = Inr (False, h)) \<and>
     (x \<in> present {} ops \<longrightarrow>
        (\<exists>h'. Remove h x = Inr (True, h') \<and>
              x \<notin> set (items h') \<and> index h' x = None \<and>
              set (items h') = present {} ops - {x} \<and>
              length (items h') + 1 = length (items h) \<and>
              GetMin h' \<noteq> Inr x \<and>
              (\<forall>ops'. distinct_ops (set (items h')) ops' \<and> x \<notin> set (inserted_values ops') \<longrightarrow>
                 (\<exists>h''. heap_run h' ops' = Inr h'' \<and> x \<notin> set (items h'') \<and>
                        GetMin h'' \<noteq> Inr x))))"
proof -
  from reachable_heap[OF assms] obtain h where
    h: "heap_run NewItemHeap ops = Inr h" "heap_inv h" "set (items h) = present {} ops"
    by blast
  then have w: "wf_heap h" by (simp add: heap_inv_def)
  have gm: "GetMin g \<noteq> Inr x" if "x \<notin> set (items g)" for g
    using that by (cases "items g") (auto simp: GetMin_def)
  have A: "Remove h x = Inr (False, h)" if "x \<notin> present {} ops"
    using Remove_absent[OF w] that h(3) by simp
  have B: "\<exists>h'. Remove h x = Inr (True, h') \<and>
              x \<notin> set (items h') \<and> index h' x = None \<and>
              set (items h') = present {} ops - {x} \<and>
              length (items h') + 1 = length (items h) \<and>
              GetMin h' \<noteq> Inr x \<and>
              (\<forall>ops'. distinct_ops (set (items h')) ops' \<and> x \<notin> set (inserted_values ops') \<longrightarrow>
                 (\<exists>h''. heap_run h' ops' = Inr h'' \<and> x \<notin> set (items h'') \<and>
                        GetMin h'' \<noteq> Inr x))" if px: "x \<in> present {} ops"
  proof -
    from px h(3) have xin: "x \<in> set (items h)" by simp
    from Remove_total[OF w, of x] h(2) xin obtain h' where
      h': "Remove h x = Inr (True, h')" "wf_heap h'" "heap_ok (items h')"
        "set (items h') = set (items h) - {x}" "length (items h') = length (items h) - 1"
      by (auto simp: heap_inv_def)
    have nx: "x \<notin> set (items h')" using h'(4) by simp
    have ix: "index h' x = None"
    proof (cases "index h' x")
      case (Some k)
      then have "k < length (items h') \<and> items h' ! k = x" using h'(2) by (simp add: wf_heap_def)
      then have "x \<in> set (items h')" by auto
      with nx show ?thesis by simp
    qed simp
    have len: "length (items h') + 1 = length (items h)"
      using h'(5) xin by (cases "items h") auto
    have later: "\<exists>h''. heap_run h' ops' = Inr h'' \<and> x \<notin> set (items h'') \<and> GetMin h'' \<noteq> Inr x"
      if "distinct_ops (set (items h')) ops' \<and> x \<notin> set (inserted_values ops')" for ops'
    proof -
      from h'(2,3) have "heap_inv h'" by (simp add: heap_inv_def)
      from heap_run_inv[OF this, of ops'] that obtain h'' where
        h'': "heap_run h' ops' = Inr h''" "set (items h'') = present (set (items h')) ops'"
        by blast
      have "x \<notin> set (items h'')"
        using present_not_inserted[OF nx, of ops'] that h''(2) by simp
      with h''(1) gm show ?thesis by blast
    qed
    from h'(1) nx ix h'(4) h(3) len gm[OF nx] later show ?thesis by auto
  qed
  from h(1,3) A B show ?thesis by blast
qed

theorem Remove_absent_or_present_witness:
  "distinct_ops {} [HInsert 5, HInsert 3, HInsert 8] \<and>
   (\<exists>h. heap_run NewItemHeap [HInsert 5, HInsert 3, HInsert 8] = Inr h \<and>
        Remove h 4 = Inr (False, h) \<and>
        (\<exists>h'. Remove h 3 = Inr (True, h') \<and> 3 \<notin> set (items h') \<and>
              length (items h') + 1 = length (items h)))"
proof -
  let ?A = "[HInsert 5, HInsert 3, HInsert 8]"
  have h: "distinct_ops {} ?A" by simp
  have p: "(4::int) \<notin> present {} ?A" "(3::int) \<in> present {} ?A"
    by simp_all
  from Remove_absent_or_present[OF h, of 4] p(1) obtain g where
    g: "heap_run NewItemHeap ?A = Inr g" "Remove g 4 = Inr (False, g)"
    by blast
  from Remove_absent_or_present[OF h, of 3] p(2) obtain g2 where
    g2: "heap_run NewItemHeap ?A = Inr g2"
      "\<exists>h'. Remove g2 3 = Inr (True, h') \<and> 3 \<notin> set (items h') \<and>
            length (items h') + 1 = length (items g2)"
    by blast
  from g2(1)[unfolded g(1)] have "g2 = g" by simp
  with g g2(2) have "heap_run NewItemHeap ?A = Inr g \<and>
        Remove g 4 = Inr (False, g) \<and>
        (\<exists>h'. Remove g 3 = Inr (True, h') \<and> 3 \<notin> set (items h') \<and>
              length (items h') + 1 = length (items g))" by blast
  then have "\<exists>h. heap_run NewItemHeap ?A = Inr h \<and>
        Remove h 4 = Inr (False, h) \<and>
        (\<exists>h'. Remove h 3 = Inr (True, h') \<and> 3 \<notin> set (items h') \<and>
              length (items h') + 1 = length (items h))" by (rule exI)
  with h show ?thesis by (intro conjI)
qed

end
